theory Spec2Isabelle
  imports Complex_Main "HOL-Library.AList" "HOL-Library.Multiset"
begin

section \<open>Python values\<close>

text \<open>
  The service (\<^verbatim>\<open>main.py\<close>) keeps everything in Python dictionaries. A Python \<^verbatim>\<open>str\<close> is
  modelled by \<^typ>\<open>string\<close>, where a \<^typ>\<open>char\<close> stands for a code point below 256 (Latin-1).
  A \<^verbatim>\<open>float\<close> is modelled by the exact rational its decimal text denotes (Python rounds it
  to the nearest double, and the sign of a zero is not kept), or by an infinity or a NaN.
  Exceptions are values: a fallible call returns \<open>error + 'a\<close>, with \<open>Inl\<close> for the raise.
\<close>

datatype pyfloat = Finite rat | Infinity bool | NaN

datatype pyval = PNone | PStr string | PInt int | PFloat pyfloat | PStrs "string list"

type_synonym dict = "(string \<times> pyval) list"

datatype error =
    Upstream string
  | HTTPException nat string
  | ValueError
  | TypeError
  | KeyError

subsection \<open>Strings\<close>

definition py_isspace :: "char \<Rightarrow> bool" where
  "py_isspace c =
     (let n = (of_char c :: nat)
      in (9 \<le> n \<and> n \<le> 13) \<or> (28 \<le> n \<and> n \<le> 32) \<or> n = 133 \<or> n = 160)"

definition py_strip :: "string \<Rightarrow> string" where
  "py_strip s = rev (dropWhile py_isspace (rev (dropWhile py_isspace s)))"

text \<open>\<^verbatim>\<open>s.replace(c, "")\<close> for a one-character \<^verbatim>\<open>c\<close>.\<close>

definition replace_by_empty :: "char \<Rightarrow> string \<Rightarrow> string" where
  "replace_by_empty c s = filter (\<lambda>x. x \<noteq> c) s"

definition py_lower_char :: "char \<Rightarrow> char" where
  "py_lower_char c =
     (let n = (of_char c :: nat)
      in if (65 \<le> n \<and> n \<le> 90) \<or> (192 \<le> n \<and> n \<le> 222 \<and> n \<noteq> 215)
         then char_of (n + 32) else c)"

definition py_lower :: "string \<Rightarrow> string" where
  "py_lower s = map py_lower_char s"

definition endswith :: "string \<Rightarrow> string \<Rightarrow> bool" where
  "endswith s suf = (length suf \<le> length s \<and> drop (length s - length suf) s = suf)"

subsection \<open>The builtins \<^verbatim>\<open>int(str)\<close> and \<^verbatim>\<open>float(str)\<close>\<close>

text \<open>
  Both follow the grammar of the language reference: surrounding whitespace is stripped, a
  sign may lead, and a run of digits may hold single underscores between digits.
  \<^verbatim>\<open>float\<close> also reads a fraction, an exponent, and the words inf, infinity and nan in any
  case. What the grammar does not derive raises \<^verbatim>\<open>ValueError\<close>. (The interpreter's limit on
  the number of digits of an \<^verbatim>\<open>int\<close> literal is a run-time setting and is not modelled.)
\<close>

definition is_digit :: "char \<Rightarrow> bool" where
  "is_digit c = (let n = (of_char c :: nat) in 48 \<le> n \<and> n \<le> 57)"

definition digit_val :: "char \<Rightarrow> nat" where
  "digit_val c = of_char c - 48"

fun digits_from :: "string \<Rightarrow> nat list \<times> string" where
  "digits_from [] = ([], [])"
| "digits_from [c] = (if is_digit c then ([digit_val c], []) else ([], [c]))"
| "digits_from (c # d # s) =
     (if is_digit c then
        (case digits_from (d # s) of (ds, r) \<Rightarrow> (digit_val c # ds, r))
      else if c = CHR ''_'' \<and> is_digit d then
        (case digits_from s of (ds, r) \<Rightarrow> (digit_val d # ds, r))
      else ([], c # d # s))"

text \<open>\<open>digitpart\<close>: a digit, then digits each optionally preceded by one underscore.\<close>

definition digitpart :: "string \<Rightarrow> (nat list \<times> string) option" where
  "digitpart s =
     (case s of [] \<Rightarrow> None
      | c # _ \<Rightarrow> if is_digit c then Some (digits_from s) else None)"

definition nat_of_digits :: "nat list \<Rightarrow> nat" where
  "nat_of_digits ds = foldl (\<lambda>a d. 10 * a + d) 0 ds"

definition sign_split :: "string \<Rightarrow> bool \<times> string" where
  "sign_split s =
     (case s of [] \<Rightarrow> (False, [])
      | c # r \<Rightarrow> if c = CHR ''-'' then (True, r)
                 else if c = CHR ''+'' then (False, r) else (False, s))"

definition py_int :: "string \<Rightarrow> error + int" where
  "py_int s =
     (case sign_split (py_strip s) of (neg, u) \<Rightarrow>
        (case digitpart u of
           Some (ds, []) \<Rightarrow>
             Inr (if neg then - int (nat_of_digits ds) else int (nat_of_digits ds))
         | Some (ds, _ # _) \<Rightarrow> Inl ValueError
         | None \<Rightarrow> Inl ValueError))"

text \<open>\<open>number ::= [digitpart] "." digitpart | digitpart ["."]\<close>, giving the digits before and
  after the point and the text that follows.\<close>

definition number :: "string \<Rightarrow> ((nat list \<times> nat list) \<times> string) option" where
  "number u =
     (case digitpart u of
        Some (ip, r) \<Rightarrow>
          (case r of
             [] \<Rightarrow> Some ((ip, []), [])
           | c # r' \<Rightarrow>
               if c = CHR ''.'' then
                 (case digitpart r' of
                    Some (fp, r'') \<Rightarrow> Some ((ip, fp), r'')
                  | None \<Rightarrow> Some ((ip, []), r'))
               else Some ((ip, []), r))
      | None \<Rightarrow>
          (case u of
             [] \<Rightarrow> None
           | c # r' \<Rightarrow>
               if c = CHR ''.'' then
                 (case digitpart r' of
                    Some (fp, r'') \<Rightarrow> Some (([], fp), r'')
                  | None \<Rightarrow> None)
               else None))"

text \<open>\<open>exponent ::= ("e" | "E") [sign] digitpart\<close>, to the end of the text; no exponent is 0.\<close>

definition exponent :: "string \<Rightarrow> int option" where
  "exponent r =
     (case r of
        [] \<Rightarrow> Some 0
      | c # r' \<Rightarrow>
          if c = CHR ''e'' \<or> c = CHR ''E'' then
            (case sign_split r' of (neg, r'') \<Rightarrow>
               (case digitpart r'' of
                  Some (ds, []) \<Rightarrow>
                    Some (if neg then - int (nat_of_digits ds) else int (nat_of_digits ds))
                | Some (ds, _ # _) \<Rightarrow> None
                | None \<Rightarrow> None))
          else None)"

definition scale10 :: "rat \<Rightarrow> int \<Rightarrow> rat" where
  "scale10 q e = (if 0 \<le> e then q * 10 ^ nat e else q / 10 ^ nat (- e))"

definition floatnumber :: "string \<Rightarrow> rat option" where
  "floatnumber u =
     (case number u of
        None \<Rightarrow> None
      | Some ((ip, fp), r) \<Rightarrow>
          (case exponent r of
             None \<Rightarrow> None
           | Some e \<Rightarrow>
               Some (scale10 (of_nat (nat_of_digits ip)
                              + of_nat (nat_of_digits fp) / 10 ^ length fp) e)))"

definition py_float :: "string \<Rightarrow> error + pyfloat" where
  "py_float s =
     (case sign_split (py_strip s) of (neg, u) \<Rightarrow>
        if py_lower u = ''inf'' \<or> py_lower u = ''infinity'' then Inr (Infinity neg)
        else if py_lower u = ''nan'' then Inr NaN
        else (case floatnumber u of
                Some q \<Rightarrow> Inr (Finite (if neg then - q else q))
              | None \<Rightarrow> Inl ValueError))"

subsection \<open>\<^verbatim>\<open>parse_int\<close> and \<^verbatim>\<open>parse_float\<close>\<close>

text \<open>
  The argument is what \<^verbatim>\<open>r.get(key)\<close> gave: \<open>None\<close> when the row has no such column.
  \<^verbatim>\<open>int(None)\<close> raises \<^verbatim>\<open>TypeError\<close>; every exception is caught and becomes \<^verbatim>\<open>None\<close>.
\<close>

definition parse_int :: "string option \<Rightarrow> int option" where
  "parse_int v =
     (case (case v of None \<Rightarrow> Inl TypeError | Some s \<Rightarrow> py_int s) of
        Inr n \<Rightarrow> Some n
      | Inl e \<Rightarrow> None)"

definition currency_text :: "string \<Rightarrow> string" where
  "currency_text s = py_strip (replace_by_empty CHR '','' (replace_by_empty CHR ''$'' s))"

definition parse_float :: "string option \<Rightarrow> pyfloat option" where
  "parse_float v =
     (case v of
        None \<Rightarrow> None
      | Some s \<Rightarrow>
          if s = [] then None
          else (case py_float (currency_text s) of
                  Inr x \<Rightarrow> Some x
                | Inl e \<Rightarrow> None))"

section \<open>The cache\<close>

text \<open>
  \<^verbatim>\<open>_cache\<close> maps a key to \<^verbatim>\<open>{"data": ..., "ts": ...}\<close>. The functions take the reading of
  \<^verbatim>\<open>time.time()\<close> as the argument \<open>now\<close>. An entry is a dictionary of two keys, so
  \<^verbatim>\<open>if not item\<close> holds only when \<^verbatim>\<open>_cache.get(key)\<close> is \<^verbatim>\<open>None\<close>.
\<close>

record 'v entry =
  data :: 'v
  ts :: real

type_synonym 'v cache = "string \<rightharpoonup> 'v entry"

definition get_cached :: "'v cache \<Rightarrow> real \<Rightarrow> string \<Rightarrow> int \<Rightarrow> 'v option" where
  "get_cached c now key ttl =
     (case c key of
        None \<Rightarrow> None
      | Some item \<Rightarrow> if now - ts item > of_int ttl then None else Some (data item))"

definition set_cache :: "'v cache \<Rightarrow> real \<Rightarrow> string \<Rightarrow> 'v \<Rightarrow> 'v cache" where
  "set_cache c now key d = c(key \<mapsto> \<lparr>data = d, ts = now\<rparr>)"

section \<open>The outside world and the process state\<close>

text \<open>
  What the outside world answers is an \<open>env\<close>: the clock, the random source, the
  spreadsheet and the file store. An answer \<open>Inl m\<close> (for the append: \<open>Some m\<close>) is the
  client library raising an exception with message \<open>m\<close>. The spreadsheet answers a read with
  the \<^verbatim>\<open>"values"\<close> of the response, \<open>None\<close> when the response has no such key; its cells are
  strings. The file store answers a listing with the \<^verbatim>\<open>"files"\<close> of the response, each file
  an id and a name. The environment may be a different one at every call.
\<close>

record env =
  clock :: "nat \<Rightarrow> real"
  utcnow_iso :: "nat \<Rightarrow> string"
  randbelow_src :: "nat \<Rightarrow> nat"
  sheet_values :: "string \<Rightarrow> string + string list list option"
  drive_files :: "string \<Rightarrow> string + (string \<times> string) list option"
  sheet_append :: "string \<Rightarrow> string list \<Rightarrow> string option"

text \<open>
  What \<^verbatim>\<open>_cache\<close> holds under a key: the profile dictionary, or the list of cars. A car is a
  dictionary object, shared by reference between the cached list and whoever reads it, so
  car dictionaries live in a heap and the list holds their addresses.
\<close>

type_synonym addr = nat

datatype cached = DProfile dict | DCars "addr list"

text \<open>
  The state of the process: the cache, the heap of dictionary objects, how many readings of
  the clock and of the random source were taken, and what the process did to the outside:
  the ranges read, the listing queries sent, the appends attempted, the rows the
  spreadsheet took, and what was printed.
\<close>

record state =
  cache :: "cached cache"
  heap :: "addr \<rightharpoonup> dict"
  next_addr :: addr
  ticks :: nat
  rand_pos :: nat
  sheet_reads :: "string list"
  drive_calls :: "string list"
  append_calls :: "(string \<times> string list) list"
  users_rows :: "string list list"
  stdout :: "(string \<times> error) list"

definition init_state :: state where
  "init_state =
     \<lparr>cache = Map.empty, heap = Map.empty, next_addr = 0, ticks = 0, rand_pos = 0,
      sheet_reads = [], drive_calls = [], append_calls = [], users_rows = [], stdout = []\<rparr>"

definition CACHE_TTL_CARS :: int where
  "CACHE_TTL_CARS = 300"

definition CACHE_TTL_META :: int where
  "CACHE_TTL_META = 1800"

definition HERO_FOLDER_ID :: string where
  "HERO_FOLDER_ID = ''1gaPqjlItG0YZcKt78CBKIhOXenjrRSW6''"

definition USERS_SHEET :: string where
  "USERS_SHEET = ''users''"

definition time_time :: "env \<Rightarrow> state \<Rightarrow> real \<times> state" where
  "time_time e s = (clock e (ticks s), s\<lparr>ticks := Suc (ticks s)\<rparr>)"

text \<open>A new dictionary object: a dict display, or \<^verbatim>\<open>dict(c)\<close>.\<close>

definition alloc :: "dict \<Rightarrow> state \<Rightarrow> addr \<times> state" where
  "alloc d s =
     (next_addr s, s\<lparr>heap := (heap s)(next_addr s \<mapsto> d), next_addr := Suc (next_addr s)\<rparr>)"

text \<open>A mutation of the dictionary object at an address (an address always holds one).\<close>

definition mutate :: "addr \<Rightarrow> (dict \<Rightarrow> dict) \<Rightarrow> state \<Rightarrow> state" where
  "mutate a f s =
     (case heap s a of None \<Rightarrow> s | Some d \<Rightarrow> s\<lparr>heap := (heap s)(a \<mapsto> f d)\<rparr>)"

section \<open>The spreadsheet reader\<close>

text \<open>
  \<^verbatim>\<open>read_sheet\<close>: the first row holds the headers; every later row becomes a dictionary
  with one key per header, filled with the empty string where the row is short. A header
  that occurs twice keeps its first position and its last value, as assignment to a
  Python dictionary does (\<^const>\<open>AList.update\<close>).
\<close>

type_synonym row = "(string \<times> string) list"

definition row_item :: "string list \<Rightarrow> string list \<Rightarrow> row" where
  "row_item hs r =
     fold (\<lambda>(i, h) item. AList.update h (if i < length r then r ! i else []) item)
       (enumerate 0 hs) []"

definition read_sheet :: "env \<Rightarrow> string \<Rightarrow> state \<Rightarrow> (error + row list) \<times> state" where
  "read_sheet e sheet_name s =
     (let s1 = s\<lparr>sheet_reads := sheet_reads s @ [sheet_name]\<rparr>
      in case sheet_values e sheet_name of
           Inl m \<Rightarrow> (Inl (Upstream m), s1)
         | Inr res \<Rightarrow>
             (case (case res of None \<Rightarrow> [] | Some v \<Rightarrow> v) of
                [] \<Rightarrow> (Inr [], s1)
              | hs # rows \<Rightarrow> (Inr (map (row_item hs) rows), s1)))"

section \<open>The photo resolver\<close>

record photo =
  photo_id :: string
  url :: string

definition drive_query :: "string \<Rightarrow> string" where
  "drive_query folder_id = CHR 0x27 # folder_id @ CHR 0x27 # '' in parents and trashed = false''"

definition is_image_name :: "string \<Rightarrow> bool" where
  "is_image_name n =
     (endswith (py_lower n) ''.jpg'' \<or> endswith (py_lower n) ''.jpeg''
      \<or> endswith (py_lower n) ''.png'')"

definition photo_of :: "string \<times> string \<Rightarrow> photo" where
  "photo_of f =
     \<lparr>photo_id = fst f, url = ''https://lh3.googleusercontent.com/d/'' @ fst f @ ''=w1200''\<rparr>"

text \<open>The argument is \<open>None\<close> for Python's \<^verbatim>\<open>None\<close>; \<^verbatim>\<open>not folder_id\<close> holds for it and for
  the empty string.\<close>

definition load_photos :: "env \<Rightarrow> string option \<Rightarrow> state \<Rightarrow> (error + photo list) \<times> state" where
  "load_photos e folder_id s =
     (case folder_id of
        None \<Rightarrow> (Inr [], s)
      | Some f \<Rightarrow>
          if f = [] then (Inr [], s)
          else
            (let s1 = s\<lparr>drive_calls := drive_calls s @ [drive_query f]\<rparr>
             in case drive_files e (drive_query f) of
                  Inl m \<Rightarrow> (Inl (Upstream m), s1)
                | Inr res \<Rightarrow>
                    (Inr (map photo_of
                            (filter (\<lambda>f. is_image_name (snd f))
                               (case res of None \<Rightarrow> [] | Some fs \<Rightarrow> fs))), s1)))"

definition load_hero_image :: "env \<Rightarrow> state \<Rightarrow> string option \<times> state" where
  "load_hero_image e s =
     (case load_photos e (Some HERO_FOLDER_ID) s of
        (Inr photos, s1) \<Rightarrow>
          (case photos of [] \<Rightarrow> (None, s1) | p # _ \<Rightarrow> (Some (url p), s1))
      | (Inl err, s1) \<Rightarrow> (None, s1\<lparr>stdout := stdout s1 @ [(''HERO LOAD ERROR:'', err)]\<rparr>))"

section \<open>The loaders\<close>

text \<open>Python's truth value of what the cache returned: an empty dictionary and an empty
  list are false.\<close>

fun truthy :: "cached \<Rightarrow> bool" where
  "truthy (DProfile d) = (d \<noteq> [])"
| "truthy (DCars cs) = (cs \<noteq> [])"

definition load_profile_miss :: "env \<Rightarrow> state \<Rightarrow> (error + cached) \<times> state" where
  "load_profile_miss e s =
     (case read_sheet e ''profile'' s of
        (Inl err, s1) \<Rightarrow> (Inl err, s1)
      | (Inr rows, s1) \<Rightarrow>
          (case load_hero_image e s1 of (hero, s2) \<Rightarrow>
             (case time_time e s2 of (now, s3) \<Rightarrow>
                (let profile =
                       AList.update ''hero_image''
                         (case hero of None \<Rightarrow> PNone | Some u \<Rightarrow> PStr u)
                         (case rows of [] \<Rightarrow> [] | r # _ \<Rightarrow> map (\<lambda>(k, v). (k, PStr v)) r)
                 in (Inr (DProfile profile),
                     s3\<lparr>cache := set_cache (cache s3) now ''profile'' (DProfile profile)\<rparr>)))))"

definition load_profile :: "env \<Rightarrow> state \<Rightarrow> (error + cached) \<times> state" where
  "load_profile e s =
     (case time_time e s of (now, s1) \<Rightarrow>
        (case get_cached (cache s1) now ''profile'' CACHE_TTL_META of
           Some c \<Rightarrow> if truthy c then (Inr c, s1) else load_profile_miss e s1
         | None \<Rightarrow> load_profile_miss e s1))"

text \<open>\<^verbatim>\<open>r.get(key, default)\<close> on a row.\<close>

definition get_or :: "row \<Rightarrow> string \<Rightarrow> string \<Rightarrow> string" where
  "get_or r k dflt = (case map_of r k of None \<Rightarrow> dflt | Some v \<Rightarrow> v)"

definition opt_int :: "int option \<Rightarrow> pyval" where
  "opt_int v = (case v of None \<Rightarrow> PNone | Some n \<Rightarrow> PInt n)"

definition opt_float :: "pyfloat option \<Rightarrow> pyval" where
  "opt_float v = (case v of None \<Rightarrow> PNone | Some x \<Rightarrow> PFloat x)"

text \<open>The dictionary display of \<^verbatim>\<open>load_cars\<close>, for a row and its stripped id.\<close>

definition car_dict :: "string \<Rightarrow> row \<Rightarrow> dict" where
  "car_dict car_id r =
     [(''id'', PStr car_id),
      (''brand'', PStr (py_strip (get_or r ''brand'' []))),
      (''model'', PStr (py_strip (get_or r ''model'' []))),
      (''year'', opt_int (parse_int (map_of r ''year''))),
      (''price_usd'', opt_float (parse_float (map_of r ''price_usd''))),
      (''price_krw'', opt_float (parse_float (map_of r ''price_krw''))),
      (''mileage_km'', opt_int (parse_int (map_of r ''mileage_km''))),
      (''engine'', PStr (get_or r ''engine'' [])),
      (''transmission'', PStr (get_or r ''transmission'' [])),
      (''fuel'', PStr (get_or r ''fuel'' [])),
      (''description'', PStr (get_or r ''description'' [])),
      (''status'', PStr (get_or r ''status'' ''active'')),
      (''photos_folder_id'', PStr (py_strip (get_or r ''photos_folder_id'' [])))]"

text \<open>The stripped id of a row: \<^verbatim>\<open>(r.get("id") or "").strip()\<close>.\<close>

definition row_id :: "row \<Rightarrow> string" where
  "row_id r = py_strip (get_or r ''id'' [])"

text \<open>The loop over the rows; every car kept is a new dictionary object.\<close>

fun build_cars :: "row list \<Rightarrow> state \<Rightarrow> addr list \<times> state" where
  "build_cars [] s = ([], s)"
| "build_cars (r # rs) s =
     (if row_id r = [] then build_cars rs s
      else if map_of r ''status'' = Some ''hidden'' then build_cars rs s
      else (case alloc (car_dict (row_id r) r) s of (a, s1) \<Rightarrow>
              (case build_cars rs s1 of (cars, s2) \<Rightarrow> (a # cars, s2))))"

text \<open>
  \<^verbatim>\<open>random.shuffle\<close>: for \<open>i\<close> from the last index down to 1, draw \<open>j\<close> below \<open>i + 1\<close> and swap
  the elements at \<open>i\<close> and \<open>j\<close>. The draw is the next number of the random source, reduced.
\<close>

fun shuffle_loop :: "(nat \<Rightarrow> nat) \<Rightarrow> nat \<Rightarrow> nat \<Rightarrow> 'a list \<Rightarrow> 'a list \<times> nat" where
  "shuffle_loop rnd p 0 xs = (xs, p)"
| "shuffle_loop rnd p (Suc k) xs =
     shuffle_loop rnd (Suc p) k
       (xs[Suc k := xs ! (rnd p mod (Suc k + 1)), rnd p mod (Suc k + 1) := xs ! Suc k])"

definition random_shuffle :: "env \<Rightarrow> 'a list \<Rightarrow> state \<Rightarrow> 'a list \<times> state" where
  "random_shuffle e xs s =
     (case shuffle_loop (randbelow_src e) (rand_pos s) (length xs - 1) xs of
        (ys, p) \<Rightarrow> (ys, s\<lparr>rand_pos := p\<rparr>))"

definition load_cars_miss :: "env \<Rightarrow> state \<Rightarrow> (error + cached) \<times> state" where
  "load_cars_miss e s =
     (case read_sheet e ''cars'' s of
        (Inl err, s1) \<Rightarrow> (Inl err, s1)
      | (Inr rows, s1) \<Rightarrow>
          (case build_cars rows s1 of (cars, s2) \<Rightarrow>
             (case random_shuffle e cars s2 of (shuffled, s3) \<Rightarrow>
                (case time_time e s3 of (now, s4) \<Rightarrow>
                   (Inr (DCars shuffled),
                    s4\<lparr>cache := set_cache (cache s4) now ''cars'' (DCars shuffled)\<rparr>)))))"

definition load_cars :: "env \<Rightarrow> state \<Rightarrow> (error + cached) \<times> state" where
  "load_cars e s =
     (case time_time e s of (now, s1) \<Rightarrow>
        (case get_cached (cache s1) now ''cars'' CACHE_TTL_CARS of
           Some c \<Rightarrow> if truthy c then (Inr c, s1) else load_cars_miss e s1
         | None \<Rightarrow> load_cars_miss e s1))"

section \<open>The event logger\<close>

text \<open>What the handlers read of a request: the client's host (\<open>None\<close> when
  \<^verbatim>\<open>request.client\<close> is \<^verbatim>\<open>None\<close>), the headers and the path.\<close>

record request =
  client_host :: "string option"
  req_headers :: "(string \<times> string) list"
  url_path :: string

definition users_range :: string where
  "users_range = USERS_SHEET @ ''!A:E''"

text \<open>The body of the \<^verbatim>\<open>try\<close>: it builds the row and sends the append.\<close>

definition append_user_event_try ::
    "env \<Rightarrow> request \<Rightarrow> string option \<Rightarrow> state \<Rightarrow> (error + unit) \<times> state" where
  "append_user_event_try e req car_id s =
     (let stamp = utcnow_iso e (ticks s);
          s1 = s\<lparr>ticks := Suc (ticks s)\<rparr>;
          ip = (case client_host req of None \<Rightarrow> [] | Some h \<Rightarrow> h);
          ua = (case map_of (req_headers req) ''user-agent'' of None \<Rightarrow> [] | Some u \<Rightarrow> u);
          path = url_path req;
          r = [stamp, ip, ua, path, (case car_id of None \<Rightarrow> [] | Some c \<Rightarrow> c)];
          s2 = s1\<lparr>append_calls := append_calls s1 @ [(users_range, r)]\<rparr>
      in case sheet_append e users_range r of
           Some m \<Rightarrow> (Inl (Upstream m), s2)
         | None \<Rightarrow> (Inr (), s2\<lparr>users_rows := users_rows s2 @ [r]\<rparr>))"

text \<open>The \<^verbatim>\<open>except Exception\<close> clause prints the exception and returns.\<close>

definition append_user_event :: "env \<Rightarrow> request \<Rightarrow> string option \<Rightarrow> state \<Rightarrow> state" where
  "append_user_event e req car_id s =
     (case append_user_event_try e req car_id s of
        (Inl err, s1) \<Rightarrow> s1\<lparr>stdout := stdout s1 @ [(''USER LOG ERROR:'', err)]\<rparr>
      | (Inr u, s1) \<Rightarrow> s1)"

section \<open>The request handlers\<close>

text \<open>
  A handler returns the value FastAPI serialises (status 200), or the exception it raised:
  \<open>HTTPException n d\<close> is answered with status \<open>n\<close>, any other exception with 500. The car
  handlers return addresses of dictionary objects; the response body is what the heap
  holds there when the handler returns. The serialisation to JSON is not modelled.

  The cache holds a list of cars under \<^verbatim>\<open>"cars"\<close> (nothing else is ever stored there, see
  \<open>reachable_inv\<close>); were it the profile dictionary, iterating it as a list of cars
  would raise, which the model reports as \<open>TypeError\<close>. In the same way an address of the
  list always holds a dictionary, and the model reports \<open>KeyError\<close> where it holds none.
\<close>

definition api_profile :: "env \<Rightarrow> state \<Rightarrow> (error + cached) \<times> state" where
  "api_profile e s = load_profile e s"

text \<open>The argument that \<^verbatim>\<open>car.get("photos_folder_id")\<close> hands to \<^verbatim>\<open>load_photos\<close>: the
  dictionary display of \<^verbatim>\<open>load_cars\<close> stores a string there.\<close>

definition folder_arg :: "pyval option \<Rightarrow> string option" where
  "folder_arg v = (case v of Some (PStr f) \<Rightarrow> Some f | _ \<Rightarrow> None)"

definition cover_of :: "photo list \<Rightarrow> pyval" where
  "cover_of photos = (case photos of [] \<Rightarrow> PNone | p # _ \<Rightarrow> PStr (url p))"

text \<open>The body of the loop of \<^verbatim>\<open>api_cars\<close> for the car at address \<open>c\<close>.\<close>

definition enrich_car :: "env \<Rightarrow> addr \<Rightarrow> state \<Rightarrow> (error + addr) \<times> state" where
  "enrich_car e c s =
     (case heap s c of
        None \<Rightarrow> (Inl KeyError, s)
      | Some d \<Rightarrow>
          (case alloc d s of (car, s1) \<Rightarrow>
             (case load_photos e (folder_arg (map_of d ''photos_folder_id'')) s1 of
                (Inl err, s2) \<Rightarrow> (Inl err, s2)
              | (Inr photos, s2) \<Rightarrow>
                  (Inr car,
                   mutate car (AList.delete ''photos_folder_id'')
                     (mutate car (AList.update ''cover_image'' (cover_of photos)) s2)))))"

fun enrich_cars :: "env \<Rightarrow> addr list \<Rightarrow> state \<Rightarrow> (error + addr list) \<times> state" where
  "enrich_cars e [] s = (Inr [], s)"
| "enrich_cars e (c # cs) s =
     (case enrich_car e c s of
        (Inl err, s1) \<Rightarrow> (Inl err, s1)
      | (Inr car, s1) \<Rightarrow>
          (case enrich_cars e cs s1 of
             (Inl err, s2) \<Rightarrow> (Inl err, s2)
           | (Inr result, s2) \<Rightarrow> (Inr (car # result), s2)))"

definition api_cars :: "env \<Rightarrow> request \<Rightarrow> state \<Rightarrow> (error + addr list) \<times> state" where
  "api_cars e req s =
     (case load_cars e (append_user_event e req None s) of
        (Inl err, s1) \<Rightarrow> (Inl err, s1)
      | (Inr (DProfile p), s1) \<Rightarrow> (Inl TypeError, s1)
      | (Inr (DCars cars), s1) \<Rightarrow> enrich_cars e cars s1)"

text \<open>\<^verbatim>\<open>next((c for c in cars if c["id"] == car_id), None)\<close>\<close>

fun find_car :: "(addr \<rightharpoonup> dict) \<Rightarrow> string \<Rightarrow> addr list \<Rightarrow> error + addr option" where
  "find_car h car_id [] = Inr None"
| "find_car h car_id (c # cs) =
     (case h c of
        None \<Rightarrow> Inl KeyError
      | Some d \<Rightarrow>
          (case map_of d ''id'' of
             None \<Rightarrow> Inl KeyError
           | Some v \<Rightarrow> if v = PStr car_id then Inr (Some c) else find_car h car_id cs))"

definition first_url :: "pyval option \<Rightarrow> pyval" where
  "first_url v = (case v of Some (PStrs (u # _)) \<Rightarrow> PStr u | _ \<Rightarrow> PNone)"

text \<open>What \<^verbatim>\<open>api_car_detail\<close> does with the car it found (\<open>None\<close> when it found none); an
  empty dictionary is false, as \<^verbatim>\<open>None\<close> is.\<close>

definition detail_of :: "env \<Rightarrow> addr option \<Rightarrow> state \<Rightarrow> (error + addr) \<times> state" where
  "detail_of e found s =
     (case (case found of None \<Rightarrow> None | Some c \<Rightarrow> heap s c) of
        None \<Rightarrow> (Inl (HTTPException 404 ''Car not found''), s)
      | Some base \<Rightarrow>
          if base = [] then (Inl (HTTPException 404 ''Car not found''), s)
          else
            (case alloc base s of (car, s1) \<Rightarrow>
               (case load_photos e (folder_arg (map_of base ''photos_folder_id'')) s1 of
                  (Inl err, s2) \<Rightarrow> (Inl err, s2)
                | (Inr photos, s2) \<Rightarrow>
                    (Inr car,
                     mutate car (AList.delete ''photos_folder_id'')
                       (mutate car (\<lambda>d. AList.update ''cover_image'' (first_url (map_of d ''photos'')) d)
                          (mutate car (AList.update ''photos'' (PStrs (map url photos))) s2))))))"

definition api_car_detail ::
    "env \<Rightarrow> string \<Rightarrow> request \<Rightarrow> state \<Rightarrow> (error + addr) \<times> state" where
  "api_car_detail e car_id req s =
     (case load_cars e (append_user_event e req (Some car_id) s) of
        (Inl err, s1) \<Rightarrow> (Inl err, s1)
      | (Inr (DProfile p), s1) \<Rightarrow> (Inl TypeError, s1)
      | (Inr (DCars cars), s1) \<Rightarrow>
          (case find_car (heap s1) car_id cars of
             Inl err \<Rightarrow> (Inl err, s1)
           | Inr found \<Rightarrow> detail_of e found s1))"

text \<open>The states the process can be in: it starts with an empty cache, and every request is
  served in some environment. (Requests are served one after the other.)\<close>

inductive reachable :: "state \<Rightarrow> bool" where
  start: "reachable init_state"
| profile: "reachable s \<Longrightarrow> reachable (snd (api_profile e s))"
| cars: "reachable s \<Longrightarrow> reachable (snd (api_cars e req s))"
| detail: "reachable s \<Longrightarrow> reachable (snd (api_car_detail e car_id req s))"

section \<open>Notions used in the statements\<close>

text \<open>A loader serves a key from the cache when the cache returns something true.\<close>

definition cache_hit :: "cached cache \<Rightarrow> real \<Rightarrow> string \<Rightarrow> int \<Rightarrow> bool" where
  "cache_hit c now key ttl =
     (case get_cached c now key ttl of None \<Rightarrow> False | Some d \<Rightarrow> truthy d)"

text \<open>\<open>extends s s'\<close>: every object that existed in \<open>s\<close> is unchanged in \<open>s'\<close>; what \<open>s'\<close>
  has more are new objects.\<close>

definition extends :: "state \<Rightarrow> state \<Rightarrow> bool" where
  "extends s s' =
     (next_addr s \<le> next_addr s' \<and> (\<forall>a. a < next_addr s \<longrightarrow> heap s' a = heap s a))"

text \<open>The rows \<^verbatim>\<open>load_cars\<close> does not skip: the trimmed id is not empty and the status is
  not \<^verbatim>\<open>"hidden"\<close>.\<close>

definition kept :: "row \<Rightarrow> bool" where
  "kept r = (row_id r \<noteq> [] \<and> map_of r ''status'' \<noteq> Some ''hidden'')"

text \<open>A dictionary as \<^verbatim>\<open>load_cars\<close> builds it from a row it keeps.\<close>

definition is_car :: "dict \<Rightarrow> bool" where
  "is_car d = (\<exists>r. kept r \<and> d = car_dict (row_id r) r)"

definition cars_ok :: "state \<Rightarrow> addr list \<Rightarrow> bool" where
  "cars_ok s cars = (\<forall>a\<in>set cars. a < next_addr s \<and> (\<exists>d. heap s a = Some d \<and> is_car d))"

text \<open>The invariant of the cache: under \<^verbatim>\<open>"cars"\<close> a list of cars as \<^verbatim>\<open>load_cars\<close> built
  them, under \<^verbatim>\<open>"profile"\<close> a profile.\<close>

definition inv :: "state \<Rightarrow> bool" where
  "inv s =
     ((\<forall>ent. cache s ''cars'' = Some ent \<longrightarrow>
         (\<exists>cars. data ent = DCars cars \<and> cars_ok s cars)) \<and>
      (\<forall>ent. cache s ''profile'' = Some ent \<longrightarrow> (\<exists>p. data ent = DProfile p)))"

text \<open>What the list handler and the detail handler make of a copy of the car \<open>d\<close>, given the
  photos of its folder.\<close>

definition list_entry :: "dict \<Rightarrow> photo list \<Rightarrow> dict" where
  "list_entry d photos =
     AList.delete ''photos_folder_id'' (AList.update ''cover_image'' (cover_of photos) d)"

definition detail_entry :: "dict \<Rightarrow> photo list \<Rightarrow> dict" where
  "detail_entry d photos =
     AList.delete ''photos_folder_id''
       (AList.update ''cover_image'' (cover_of photos)
          (AList.update ''photos'' (PStrs (map url photos)) d))"

text \<open>The id of the dictionary at an address.\<close>

definition id_at :: "state \<Rightarrow> addr \<Rightarrow> pyval option" where
  "id_at s a = (case heap s a of None \<Rightarrow> None | Some d \<Rightarrow> map_of d ''id'')"

text \<open>The row \<^verbatim>\<open>append_user_event\<close> builds in state \<open>s\<close>.\<close>

definition event_row :: "env \<Rightarrow> request \<Rightarrow> string option \<Rightarrow> state \<Rightarrow> string list" where
  "event_row e req car_id s =
     [utcnow_iso e (ticks s),
      (case client_host req of None \<Rightarrow> [] | Some h \<Rightarrow> h),
      (case map_of (req_headers req) ''user-agent'' of None \<Rightarrow> [] | Some u \<Rightarrow> u),
      url_path req,
      (case car_id of None \<Rightarrow> [] | Some c \<Rightarrow> c)]"

text \<open>A state with other rows taken by the spreadsheet and other lines printed.\<close>

definition relog :: "string list list \<Rightarrow> (string \<times> error) list \<Rightarrow> state \<Rightarrow> state" where
  "relog u out s = s\<lparr>users_rows := u, stdout := out\<rparr>"

section \<open>Sample worlds\<close>

text \<open>A spreadsheet and a file store that refuse every call.\<close>

definition env_down :: env where
  "env_down =
     \<lparr>clock = (\<lambda>n. 1000), utcnow_iso = (\<lambda>n. ''2024-01-01T00:00:00''),
      randbelow_src = (\<lambda>n. 0), sheet_values = (\<lambda>n. Inl ''quota''),
      drive_files = (\<lambda>q. Inl ''down''), sheet_append = (\<lambda>r x. Some ''quota'')\<rparr>"

text \<open>A state whose cache holds one car, stored at time 0.\<close>

definition one_car :: dict where
  "one_car = car_dict ''c1'' [(''id'', ''c1''), (''photos_folder_id'', ''F1'')]"

definition stale_state :: state where
  "stale_state =
     init_state\<lparr>cache := [''cars'' \<mapsto> \<lparr>data = DCars [0], ts = 0\<rparr>],
                heap := [0 \<mapsto> one_car], next_addr := 1\<rparr>"

text \<open>A shop: the sheet of cars has a car with an empty status and an unreadable year, a
  hidden car and a row with a blank id; the profile sheet has a column named
  \<^verbatim>\<open>photos_folder_id\<close>; every folder holds one picture and one text file. The rows are given
  as \<^verbatim>\<open>read_sheet\<close> returns them, too.\<close>

definition shop_row :: row where
  "shop_row = [(''id'', ''c1''), (''status'', []), (''year'', ''n/a''),
               (''price_usd'', ''$12,345.00''), (''photos_folder_id'', ''F1'')]"

definition hidden_row :: row where
  "hidden_row = [(''id'', ''c2''), (''status'', ''hidden''), (''year'', []),
                 (''price_usd'', []), (''photos_folder_id'', [])]"

definition blank_row :: row where
  "blank_row = [(''id'', '' ''), (''status'', []), (''year'', []),
                (''price_usd'', []), (''photos_folder_id'', [])]"

definition shop_car :: dict where
  "shop_car = car_dict ''c1'' shop_row"

definition env_shop :: env where
  "env_shop =
     \<lparr>clock = (\<lambda>n. 100), utcnow_iso = (\<lambda>n. ''2024-01-01T00:00:00''),
      randbelow_src = (\<lambda>n. 0),
      sheet_values = (\<lambda>n.
        if n = ''cars'' then
          Inr (Some [[''id'', ''status'', ''year'', ''price_usd'', ''photos_folder_id''],
                     [''c1'', [], ''n/a'', ''$12,345.00'', ''F1''],
                     [''c2'', ''hidden''],
                     ['' '']])
        else Inr (Some [[''name'', ''photos_folder_id''], [''Shop'', ''X'']])),
      drive_files = (\<lambda>q. Inr (Some [(''p1'', ''a.JPG''), (''n1'', ''notes.txt'')])),
      sheet_append = (\<lambda>r x. None)\<rparr>"


text \<open>A spreadsheet whose sheets are empty.\<close>

definition env_bare :: env where
  "env_bare =
     \<lparr>clock = (\<lambda>n. 100), utcnow_iso = (\<lambda>n. ''2024-01-01T00:00:00''),
      randbelow_src = (\<lambda>n. 0), sheet_values = (\<lambda>n. Inr None),
      drive_files = (\<lambda>q. Inr None), sheet_append = (\<lambda>r x. None)\<rparr>"

text \<open>A request for a car the shop does not have, and one for the car it has.\<close>

definition req_zz :: request where
  "req_zz = \<lparr>client_host = Some ''10.0.0.7'', req_headers = [(''user-agent'', ''curl/8'')],
            url_path = ''/api/cars/zz''\<rparr>"

definition req_c1 :: request where
  "req_c1 = \<lparr>client_host = Some ''10.0.0.7'', req_headers = [(''user-agent'', ''curl/8'')],
            url_path = ''/api/cars/c1''\<rparr>"

definition req_list :: request where
  "req_list = \<lparr>client_host = None, req_headers = [], url_path = ''/api/cars''\<rparr>"

text \<open>The shop when the file store is down.\<close>

definition env_nodrive :: env where
  "env_nodrive = env_shop\<lparr>drive_files := \<lambda>q. Inl ''down''\<rparr>"

text \<open>The state after one \<^verbatim>\<open>GET /api/cars\<close> in the sample shop.\<close>

definition warm_state :: state where
  "warm_state = snd (api_cars env_shop req_list init_state)"

text \<open>The shop when its profile sheet holds the header row only.\<close>

definition env_header :: env where
  "env_header = env_shop\<lparr>sheet_values := \<lambda>n. Inr (Some [[''name'', ''photos_folder_id'']])\<rparr>"

text \<open>The state after one \<^verbatim>\<open>GET /api/profile\<close> against the empty spreadsheet.\<close>

definition profiled_state :: state where
  "profiled_state = snd (api_profile env_bare init_state)"

section \<open>The cache: a read after a write\<close>

text \<open>
  C1. For every cache, key \<open>k\<close>, value \<open>v\<close> and TTL \<open>t\<close>: right after \<^verbatim>\<open>set_cache(k, v)\<close> at
  time \<open>s\<close>, \<^verbatim>\<open>get_cached(k, t)\<close> at time \<open>n\<close> returns \<open>v\<close> when \<open>n - s \<le> t\<close> and nothing when
  \<open>n - s > t\<close>. The validity is decided on the read; the read leaves the cache as it is
  (\<^const>\<open>get_cached\<close> only looks the entry up).
\<close>

theorem get_after_set:
  "get_cached (set_cache c s k v) n k t = (if n - s \<le> of_int t then Some v else None)"
  by (simp add: get_cached_def set_cache_def)

section \<open>A failed load\<close>

lemma read_sheet_fails:
  "sheet_values e n = Inl m \<Longrightarrow>
   read_sheet e n s = (Inl (Upstream m), s\<lparr>sheet_reads := sheet_reads s @ [n]\<rparr>)"
  by (simp add: read_sheet_def Let_def)

lemma load_cars_miss_fails:
  "sheet_values e ''cars'' = Inl m \<Longrightarrow>
   load_cars_miss e s = (Inl (Upstream m), s\<lparr>sheet_reads := sheet_reads s @ [''cars'']\<rparr>)"
  by (simp add: load_cars_miss_def read_sheet_fails)

lemma load_profile_miss_fails:
  "sheet_values e ''profile'' = Inl m \<Longrightarrow>
   load_profile_miss e s =
     (Inl (Upstream m), s\<lparr>sheet_reads := sheet_reads s @ [''profile'']\<rparr>)"
  by (simp add: load_profile_miss_def read_sheet_fails)

text \<open>
  C6. When the spreadsheet read of \<^verbatim>\<open>load_cars\<close> (of \<^verbatim>\<open>load_profile\<close>) raises, the cache and
  the heap are after the call what they were before it; the call raises that exception
  unless it was served from the cache, in which case it did not read the spreadsheet.
\<close>

theorem load_failure_keeps_cache:
  "(sheet_values e ''cars'' = Inl m \<longrightarrow>
      cache (snd (load_cars e s)) = cache s \<and> heap (snd (load_cars e s)) = heap s \<and>
      (if cache_hit (cache s) (clock e (ticks s)) ''cars'' CACHE_TTL_CARS
       then sheet_reads (snd (load_cars e s)) = sheet_reads s
       else fst (load_cars e s) = Inl (Upstream m))) \<and>
   (sheet_values e ''profile'' = Inl m' \<longrightarrow>
      cache (snd (load_profile e s)) = cache s \<and> heap (snd (load_profile e s)) = heap s \<and>
      (if cache_hit (cache s) (clock e (ticks s)) ''profile'' CACHE_TTL_META
       then sheet_reads (snd (load_profile e s)) = sheet_reads s
       else fst (load_profile e s) = Inl (Upstream m')))"
  by (auto simp: load_cars_def load_profile_def time_time_def cache_hit_def
      load_cars_miss_fails load_profile_miss_fails split: option.splits)

theorem load_failure_keeps_cache_witness:
  "sheet_values env_down ''cars'' = Inl ''quota'' \<and>
   sheet_values env_down ''profile'' = Inl ''quota'' \<and>
   fst (load_cars env_down stale_state) = Inl (Upstream ''quota'') \<and>
   cache (snd (load_cars env_down stale_state)) = cache stale_state \<and>
   fst (load_profile env_down stale_state) = Inl (Upstream ''quota'') \<and>
   cache (snd (load_profile env_down stale_state)) = cache stale_state"
  using load_failure_keeps_cache [of env_down "''quota''" stale_state "''quota''"]
  by (simp add: env_down_def stale_state_def init_state_def cache_hit_def get_cached_def
      CACHE_TTL_CARS_def CACHE_TTL_META_def)

section \<open>Frames and the invariant of the cache\<close>

lemma extends_refl [simp]: "extends s s"
  by (simp add: extends_def)

lemma extends_trans: "extends s s1 \<Longrightarrow> extends s1 s2 \<Longrightarrow> extends s s2"
  by (auto simp: extends_def)

lemma extends_ticks [simp]: "extends s (s'\<lparr>ticks := n\<rparr>) = extends s s'"
  by (simp add: extends_def)

lemma cars_ok_extends: "cars_ok s cars \<Longrightarrow> extends s s' \<Longrightarrow> cars_ok s' cars"
  by (fastforce simp: cars_ok_def extends_def)

lemma inv_extends:
  assumes "inv s" and "extends s s'" and "cache s' = cache s"
  shows "inv s'"
  unfolding inv_def
proof (intro conjI allI impI)
  fix ent
  assume "cache s' ''cars'' = Some ent"
  with assms obtain cars where "data ent = DCars cars" and "cars_ok s cars"
    by (auto simp: inv_def)
  then show "\<exists>cars. data ent = DCars cars \<and> cars_ok s' cars"
    using cars_ok_extends [OF _ assms(2)] by blast
next
  fix ent
  assume "cache s' ''profile'' = Some ent"
  with assms show "\<exists>p. data ent = DProfile p"
    by (auto simp: inv_def)
qed

lemma alloc_extends: "alloc d s = (a, s') \<Longrightarrow> extends s s'"
  by (auto simp: alloc_def extends_def)

lemma mutate_fields [simp]:
  "cache (mutate a f s) = cache s" "next_addr (mutate a f s) = next_addr s"
  "append_calls (mutate a f s) = append_calls s" "users_rows (mutate a f s) = users_rows s"
  by (simp_all add: mutate_def split: option.splits)

lemma load_photos_fields:
  "load_photos e f s = (r, s') \<Longrightarrow>
   cache s' = cache s \<and> heap s' = heap s \<and> next_addr s' = next_addr s \<and>
   append_calls s' = append_calls s \<and> users_rows s' = users_rows s \<and>
   ticks s' = ticks s \<and> rand_pos s' = rand_pos s \<and> sheet_reads s' = sheet_reads s"
  by (auto simp: load_photos_def Let_def split: option.splits sum.splits if_splits)

lemma read_sheet_fields:
  "cache (snd (read_sheet e n s)) = cache s"
  "heap (snd (read_sheet e n s)) = heap s"
  "next_addr (snd (read_sheet e n s)) = next_addr s"
  "append_calls (snd (read_sheet e n s)) = append_calls s"
  "users_rows (snd (read_sheet e n s)) = users_rows s"
  "ticks (snd (read_sheet e n s)) = ticks s"
  "rand_pos (snd (read_sheet e n s)) = rand_pos s"
  by (simp_all add: read_sheet_def Let_def split: option.splits sum.splits list.splits)

lemma random_shuffle_fields:
  "cache (snd (random_shuffle e xs s)) = cache s"
  "heap (snd (random_shuffle e xs s)) = heap s"
  "next_addr (snd (random_shuffle e xs s)) = next_addr s"
  "append_calls (snd (random_shuffle e xs s)) = append_calls s"
  "users_rows (snd (random_shuffle e xs s)) = users_rows s"
  "ticks (snd (random_shuffle e xs s)) = ticks s"
  by (simp_all add: random_shuffle_def case_prod_beta)

lemma shuffle_loop_mset:
  "k < length xs \<Longrightarrow> mset (fst (shuffle_loop rnd p k xs)) = mset xs"
proof (induction k arbitrary: p xs)
  case 0
  then show ?case by simp
next
  case (Suc k)
  let ?j = "rnd p mod (Suc k + 1)"
  have "?j < Suc k + 1" by simp
  with Suc.prems have j: "?j < length xs" by linarith
  have "mset (xs[Suc k := xs ! ?j, ?j := xs ! Suc k]) = mset xs"
    using mset_swap [OF j Suc.prems] by simp
  moreover have "k < length (xs[Suc k := xs ! ?j, ?j := xs ! Suc k])"
    using Suc.prems by simp
  ultimately show ?case
    using Suc.IH [of "xs[Suc k := xs ! ?j, ?j := xs ! Suc k]" "Suc p"] by simp
qed

lemma random_shuffle_mset: "mset (fst (random_shuffle e xs s)) = mset xs"
proof (cases xs)
  case Nil
  then show ?thesis by (simp add: random_shuffle_def)
next
  case (Cons x xs')
  then have "length xs - 1 < length xs" by simp
  from shuffle_loop_mset [OF this] show ?thesis
    by (simp add: random_shuffle_def case_prod_beta)
qed

lemma random_shuffle_set: "set (fst (random_shuffle e xs s)) = set xs"
  using random_shuffle_mset [of e xs s] by (metis set_mset_mset)

lemma alloc_fields:
  "cache (snd (alloc d s)) = cache s"
  "append_calls (snd (alloc d s)) = append_calls s"
  "users_rows (snd (alloc d s)) = users_rows s"
  "ticks (snd (alloc d s)) = ticks s"
  "rand_pos (snd (alloc d s)) = rand_pos s"
  "sheet_reads (snd (alloc d s)) = sheet_reads s"
  "next_addr (snd (alloc d s)) = Suc (next_addr s)"
  "fst (alloc d s) = next_addr s"
  "heap (snd (alloc d s)) = (heap s)(next_addr s \<mapsto> d)"
  by (simp_all add: alloc_def)

lemma build_cars_fields:
  "cache (snd (build_cars rows s)) = cache s \<and>
   append_calls (snd (build_cars rows s)) = append_calls s \<and>
   users_rows (snd (build_cars rows s)) = users_rows s \<and>
   ticks (snd (build_cars rows s)) = ticks s \<and>
   rand_pos (snd (build_cars rows s)) = rand_pos s \<and>
   sheet_reads (snd (build_cars rows s)) = sheet_reads s"
  by (induction rows arbitrary: s) (simp_all add: case_prod_beta alloc_fields)

lemma build_cars_extends: "extends s (snd (build_cars rows s))"
proof (induction rows arbitrary: s)
  case Nil
  then show ?case by simp
next
  case (Cons r rows)
  have "extends s (snd (alloc (car_dict (row_id r) r) s))"
    by (rule alloc_extends [of _ _ "fst (alloc (car_dict (row_id r) r) s)"]) simp
  from extends_trans [OF this Cons.IH] Cons.IH show ?case
    by (simp add: case_prod_beta)
qed

lemma build_cars_cars:
  "\<forall>a\<in>set (fst (build_cars rows s)).
     next_addr s \<le> a \<and> a < next_addr (snd (build_cars rows s)) \<and>
     (\<exists>r\<in>set rows. kept r \<and> heap (snd (build_cars rows s)) a = Some (car_dict (row_id r) r))"
proof (induction rows arbitrary: s)
  case Nil
  then show ?case by simp
next
  case (Cons r rows)
  show ?case
  proof (cases "row_id r = [] \<or> map_of r ''status'' = Some ''hidden''")
    case True
    then have "build_cars (r # rows) s = build_cars rows s" by auto
    with Cons.IH [of s] show ?thesis by auto
  next
    case False
    define s1 where "s1 = snd (alloc (car_dict (row_id r) r) s)"
    define s2 where "s2 = snd (build_cars rows s1)"
    have eq: "build_cars (r # rows) s = (next_addr s # fst (build_cars rows s1), s2)"
      using False by (simp add: case_prod_beta s1_def s2_def alloc_fields)
    have ext: "extends s1 s2" unfolding s2_def by (rule build_cars_extends)
    have n1: "next_addr s1 = Suc (next_addr s)" and h1: "heap s1 (next_addr s) = Some (car_dict (row_id r) r)"
      by (simp_all add: s1_def alloc_fields)
    have "heap s2 (next_addr s) = Some (car_dict (row_id r) r)" "next_addr s < next_addr s2"
      using ext n1 h1 by (auto simp: extends_def)
    moreover have "kept r" using False by (simp add: kept_def)
    moreover have "\<forall>x\<in>set (fst (build_cars rows s1)). next_addr s \<le> x \<and> x < next_addr s2 \<and>
       (\<exists>r\<in>set rows. kept r \<and> heap s2 x = Some (car_dict (row_id r) r))"
      using Cons.IH [of s1] n1 unfolding s2_def by auto
    ultimately show ?thesis
      unfolding eq by auto
  qed
qed

lemma build_cars_ok: "cars_ok (snd (build_cars rows s)) (fst (build_cars rows s))"
  using build_cars_cars [of rows s] by (fastforce simp: cars_ok_def is_car_def)

lemma load_cars_miss_result:
  assumes "load_cars_miss e s = (r, s')"
  shows "extends s s' \<and> append_calls s' = append_calls s \<and> users_rows s' = users_rows s \<and>
     (case r of
        Inl err \<Rightarrow> cache s' = cache s \<and> heap s' = heap s \<and> next_addr s' = next_addr s
      | Inr c \<Rightarrow> \<exists>cars. c = DCars cars \<and> cars_ok s' cars \<and>
          cache s' = (cache s)(''cars'' \<mapsto> \<lparr>data = DCars cars, ts = clock e (ticks s)\<rparr>))"
proof (cases "fst (read_sheet e ''cars'' s)")
  case (Inl err)
  with assms have "r = Inl err" "s' = snd (read_sheet e ''cars'' s)"
    by (auto simp: load_cars_miss_def split: prod.splits)
  then show ?thesis
    by (simp add: read_sheet_fields extends_def)
next
  case (Inr rows)
  define s1 where "s1 = snd (read_sheet e ''cars'' s)"
  define s2 where "s2 = snd (build_cars rows s1)"
  define cars where "cars = fst (build_cars rows s1)"
  define s3 where "s3 = snd (random_shuffle e cars s2)"
  define shuffled where "shuffled = fst (random_shuffle e cars s2)"
  have rs: "read_sheet e ''cars'' s = (Inr rows, s1)"
    using Inr by (simp add: s1_def prod_eq_iff)
  have res: "r = Inr (DCars shuffled)"
    "s' = s3\<lparr>ticks := Suc (ticks s3),
              cache := set_cache (cache s3) (clock e (ticks s3)) ''cars'' (DCars shuffled)\<rparr>"
    using assms
    by (simp_all add: load_cars_miss_def rs case_prod_beta time_time_def
        s2_def [symmetric] cars_def [symmetric] s3_def [symmetric] shuffled_def [symmetric])
  have f1: "heap s1 = heap s" "next_addr s1 = next_addr s" "cache s1 = cache s"
    "ticks s1 = ticks s" "append_calls s1 = append_calls s" "users_rows s1 = users_rows s"
    by (simp_all add: s1_def read_sheet_fields)
  have f2: "cache s2 = cache s1" "ticks s2 = ticks s1" "append_calls s2 = append_calls s1"
    "users_rows s2 = users_rows s1"
    using build_cars_fields [of rows s1] by (simp_all add: s2_def)
  have f3: "heap s3 = heap s2" "next_addr s3 = next_addr s2" "cache s3 = cache s2"
    "ticks s3 = ticks s2" "append_calls s3 = append_calls s2" "users_rows s3 = users_rows s2"
    by (simp_all add: s3_def random_shuffle_fields)
  have "extends s1 s2" unfolding s2_def by (rule build_cars_extends)
  then have ext: "extends s s'"
    using f1 f3 by (simp add: res extends_def)
  have "cars_ok s2 cars" unfolding s2_def cars_def by (rule build_cars_ok)
  moreover have "set shuffled = set cars"
    unfolding shuffled_def by (rule random_shuffle_set)
  ultimately have ok: "cars_ok s' shuffled"
    using f3 by (simp add: cars_ok_def res)
  have "cache s' = (cache s)(''cars'' \<mapsto> \<lparr>data = DCars shuffled, ts = clock e (ticks s)\<rparr>)"
    by (simp add: res set_cache_def f1 f2 f3)
  with ext ok show ?thesis
    by (simp add: res f1 f2 f3)
qed

lemma append_user_event_fields:
  "cache (append_user_event e req c s) = cache s"
  "heap (append_user_event e req c s) = heap s"
  "next_addr (append_user_event e req c s) = next_addr s"
  "rand_pos (append_user_event e req c s) = rand_pos s"
  "sheet_reads (append_user_event e req c s) = sheet_reads s"
  "drive_calls (append_user_event e req c s) = drive_calls s"
  "ticks (append_user_event e req c s) = Suc (ticks s)"
  by (simp_all add: append_user_event_def append_user_event_try_def Let_def split: option.splits)

lemma inv_fields:
  "cache s' = cache s \<Longrightarrow> heap s' = heap s \<Longrightarrow> next_addr s' = next_addr s \<Longrightarrow> inv s' = inv s"
  by (simp add: inv_def cars_ok_def)

lemma inv_append_user_event: "inv (append_user_event e req c s) = inv s"
  by (rule inv_fields) (simp_all add: append_user_event_fields)

lemma load_cars_result:
  assumes "load_cars e s = (r, s')"
  shows "extends s s' \<and> append_calls s' = append_calls s \<and> users_rows s' = users_rows s \<and>
     (case r of
        Inl err \<Rightarrow> cache s' = cache s
      | Inr c \<Rightarrow>
          (cache_hit (cache s) (clock e (ticks s)) ''cars'' CACHE_TTL_CARS \<and>
           get_cached (cache s) (clock e (ticks s)) ''cars'' CACHE_TTL_CARS = Some c \<and>
           s' = s\<lparr>ticks := Suc (ticks s)\<rparr>) \<or>
          (\<exists>cars. c = DCars cars \<and> cars_ok s' cars \<and>
             cache s' = (cache s)(''cars'' \<mapsto> \<lparr>data = DCars cars, ts = clock e (Suc (ticks s))\<rparr>)))"
proof (cases "cache_hit (cache s) (clock e (ticks s)) ''cars'' CACHE_TTL_CARS")
  case True
  then obtain c where "get_cached (cache s) (clock e (ticks s)) ''cars'' CACHE_TTL_CARS = Some c"
      "truthy c"
    by (auto simp: cache_hit_def split: option.splits)
  with assms True show ?thesis
    by (auto simp: load_cars_def time_time_def)
next
  case False
  then have "load_cars e s = load_cars_miss e (s\<lparr>ticks := Suc (ticks s)\<rparr>)"
    by (auto simp: load_cars_def time_time_def cache_hit_def split: option.splits)
  with assms have "load_cars_miss e (s\<lparr>ticks := Suc (ticks s)\<rparr>) = (r, s')" by simp
  from load_cars_miss_result [OF this] show ?thesis
    by (cases r) (auto simp: extends_def)
qed

lemma inv_cars_entry:
  assumes "inv s" and "extends s s'" and "cars_ok s' cars"
    and "cache s' = (cache s)(''cars'' \<mapsto> \<lparr>data = DCars cars, ts = t\<rparr>)"
  shows "inv s'"
  unfolding inv_def
proof (intro conjI allI impI)
  fix ent
  assume "cache s' ''cars'' = Some ent"
  with assms(4) have "data ent = DCars cars" by auto
  with assms(3) show "\<exists>cars. data ent = DCars cars \<and> cars_ok s' cars" by blast
next
  fix ent
  assume "cache s' ''profile'' = Some ent"
  with assms(4) have "cache s ''profile'' = Some ent" by (simp split: if_splits)
  with assms(1) show "\<exists>p. data ent = DProfile p" by (auto simp: inv_def)
qed

lemma inv_load_cars:
  assumes "inv s" and "load_cars e s = (r, s')"
  shows "inv s'"
proof -
  note res = load_cars_result [OF assms(2)]
  show ?thesis
  proof (cases r)
    case (Inl err)
    with res assms(1) show ?thesis by (auto intro: inv_extends)
  next
    case (Inr c)
    with res consider
      (hit) "s' = s\<lparr>ticks := Suc (ticks s)\<rparr>"
    | (miss) cars where "cars_ok s' cars"
        "cache s' = (cache s)(''cars'' \<mapsto> \<lparr>data = DCars cars, ts = clock e (Suc (ticks s))\<rparr>)"
      by auto
    then show ?thesis
    proof cases
      case hit
      then show ?thesis using assms(1) inv_fields [of s' s] by simp
    next
      case miss
      with res assms(1) show ?thesis by (auto intro: inv_cars_entry)
    qed
  qed
qed

lemma load_cars_typed:
  assumes "inv s" and "load_cars e s = (Inr c, s')"
  shows "\<exists>cars. c = DCars cars \<and> cars_ok s' cars"
proof -
  from load_cars_result [OF assms(2)] consider
      (hit) "get_cached (cache s) (clock e (ticks s)) ''cars'' CACHE_TTL_CARS = Some c"
        "s' = s\<lparr>ticks := Suc (ticks s)\<rparr>"
    | (miss) cars where "c = DCars cars" "cars_ok s' cars"
    by auto
  then show ?thesis
  proof cases
    case hit
    then obtain ent where "cache s ''cars'' = Some ent" "data ent = c"
      by (auto simp: get_cached_def split: option.splits if_splits)
    with assms(1) obtain cars where "c = DCars cars" "cars_ok s cars"
      by (auto simp: inv_def)
    then show ?thesis using hit by (simp add: cars_ok_def)
  next
    case miss
    then show ?thesis by blast
  qed
qed

lemma load_hero_image_fields:
  "cache (snd (load_hero_image e s)) = cache s"
  "heap (snd (load_hero_image e s)) = heap s"
  "next_addr (snd (load_hero_image e s)) = next_addr s"
  "ticks (snd (load_hero_image e s)) = ticks s"
  "append_calls (snd (load_hero_image e s)) = append_calls s"
  "users_rows (snd (load_hero_image e s)) = users_rows s"
  by (simp_all add: load_hero_image_def load_photos_def Let_def
      split: sum.splits option.splits list.splits)

lemma load_profile_miss_result:
  assumes "load_profile_miss e s = (r, s')"
  shows "heap s' = heap s \<and> next_addr s' = next_addr s \<and>
     append_calls s' = append_calls s \<and> users_rows s' = users_rows s \<and>
     (case r of
        Inl err \<Rightarrow> cache s' = cache s
      | Inr c \<Rightarrow> \<exists>p. c = DProfile p \<and> map_of p ''hero_image'' \<noteq> None \<and>
          cache s' = (cache s)(''profile'' \<mapsto> \<lparr>data = DProfile p, ts = clock e (ticks s)\<rparr>))"
proof (cases "fst (read_sheet e ''profile'' s)")
  case (Inl err)
  with assms have "r = Inl err" "s' = snd (read_sheet e ''profile'' s)"
    by (auto simp: load_profile_miss_def split: prod.splits)
  then show ?thesis
    by (simp add: read_sheet_fields)
next
  case (Inr rows)
  define s1 where "s1 = snd (read_sheet e ''profile'' s)"
  define s2 where "s2 = snd (load_hero_image e s1)"
  have rs: "read_sheet e ''profile'' s = (Inr rows, s1)"
    using Inr by (simp add: s1_def prod_eq_iff)
  obtain p where res: "r = Inr (DProfile p)" "map_of p ''hero_image'' \<noteq> None"
    "s' = s2\<lparr>ticks := Suc (ticks s2),
              cache := set_cache (cache s2) (clock e (ticks s2)) ''profile'' (DProfile p)\<rparr>"
    using assms
    by (auto simp: load_profile_miss_def rs case_prod_beta time_time_def Let_def
        s2_def [symmetric] update_conv')
  have f: "heap s2 = heap s" "next_addr s2 = next_addr s" "cache s2 = cache s"
    "ticks s2 = ticks s" "append_calls s2 = append_calls s" "users_rows s2 = users_rows s"
    by (simp_all add: s2_def s1_def load_hero_image_fields read_sheet_fields)
  show ?thesis
    using res(2) by (simp add: res(1,3) f set_cache_def)
qed

lemma load_profile_result:
  assumes "load_profile e s = (r, s')"
  shows "heap s' = heap s \<and> next_addr s' = next_addr s \<and>
     append_calls s' = append_calls s \<and> users_rows s' = users_rows s \<and>
     (cache s' = cache s \<or>
      (\<exists>p t. cache s' = (cache s)(''profile'' \<mapsto> \<lparr>data = DProfile p, ts = t\<rparr>)))"
proof (cases "cache_hit (cache s) (clock e (ticks s)) ''profile'' CACHE_TTL_META")
  case True
  with assms show ?thesis
    by (auto simp: load_profile_def time_time_def cache_hit_def split: option.splits)
next
  case False
  then have "load_profile e s = load_profile_miss e (s\<lparr>ticks := Suc (ticks s)\<rparr>)"
    by (auto simp: load_profile_def time_time_def cache_hit_def split: option.splits)
  with assms have "load_profile_miss e (s\<lparr>ticks := Suc (ticks s)\<rparr>) = (r, s')" by simp
  from load_profile_miss_result [OF this] show ?thesis
    by (cases r) auto
qed

lemma inv_load_profile:
  assumes "inv s" and "load_profile e s = (r, s')"
  shows "inv s'"
proof -
  from load_profile_result [OF assms(2)] have
    h: "heap s' = heap s" "next_addr s' = next_addr s" and
    c: "cache s' = cache s \<or>
      (\<exists>p t. cache s' = (cache s)(''profile'' \<mapsto> \<lparr>data = DProfile p, ts = t\<rparr>))"
    by simp_all
  from c show ?thesis
  proof
    assume "cache s' = cache s"
    with h assms(1) show ?thesis using inv_fields [of s' s] by simp
  next
    assume "\<exists>p t. cache s' = (cache s)(''profile'' \<mapsto> \<lparr>data = DProfile p, ts = t\<rparr>)"
    then obtain p t where
      c': "cache s' = (cache s)(''profile'' \<mapsto> \<lparr>data = DProfile p, ts = t\<rparr>)" by blast
    show ?thesis
      unfolding inv_def
    proof (intro conjI allI impI)
      fix ent
      assume "cache s' ''cars'' = Some ent"
      with c' have "cache s ''cars'' = Some ent" by (simp split: if_splits)
      with assms(1) obtain cars where "data ent = DCars cars" "cars_ok s cars"
        by (auto simp: inv_def)
      then show "\<exists>cars. data ent = DCars cars \<and> cars_ok s' cars"
        using h by (auto simp: cars_ok_def)
    next
      fix ent
      assume "cache s' ''profile'' = Some ent"
      with c' show "\<exists>p. data ent = DProfile p" by auto
    qed
  qed
qed

lemma mutate_at: "heap s a = Some d \<Longrightarrow> mutate a f s = s\<lparr>heap := (heap s)(a \<mapsto> f d)\<rparr>"
  by (simp add: mutate_def)

lemma enrich_car_result:
  assumes "enrich_car e c s = (r, s')"
  shows "extends s s' \<and> cache s' = cache s \<and> append_calls s' = append_calls s \<and>
     users_rows s' = users_rows s \<and>
     (case r of
        Inl err \<Rightarrow> True
      | Inr car \<Rightarrow> car = next_addr s \<and> next_addr s' = Suc (next_addr s) \<and>
          (\<exists>d photos. heap s c = Some d \<and>
             load_photos e (folder_arg (map_of d ''photos_folder_id'')) (snd (alloc d s))
               = (Inr photos, s'\<lparr>heap := heap (snd (alloc d s))\<rparr>) \<and>
             heap s' car = Some (list_entry d photos)))"
proof (cases "heap s c")
  case None
  with assms show ?thesis by (auto simp: enrich_car_def)
next
  case (Some d)
  define s1 where "s1 = snd (alloc d s)"
  define lp where "lp = load_photos e (folder_arg (map_of d ''photos_folder_id'')) s1"
  have a: "alloc d s = (next_addr s, s1)"
    by (simp add: s1_def alloc_def)
  have lpf: "cache (snd lp) = cache s1" "heap (snd lp) = heap s1" "next_addr (snd lp) = next_addr s1"
    "append_calls (snd lp) = append_calls s1" "users_rows (snd lp) = users_rows s1"
    using load_photos_fields [of e "folder_arg (map_of d ''photos_folder_id'')" s1 "fst lp" "snd lp"]
    by (simp_all add: lp_def)
  have s1f: "cache s1 = cache s" "heap s1 = (heap s)(next_addr s \<mapsto> d)"
    "next_addr s1 = Suc (next_addr s)" "append_calls s1 = append_calls s"
    "users_rows s1 = users_rows s"
    by (simp_all add: s1_def alloc_fields)
  have ext1: "extends s (snd lp)"
    by (simp add: extends_def lpf s1f)
  show ?thesis
  proof (cases "fst lp")
    case (Inl err)
    with assms Some a have "r = Inl err" "s' = snd lp"
      by (auto simp: enrich_car_def lp_def [symmetric] split: prod.splits)
    with ext1 show ?thesis by (simp add: lpf s1f)
  next
    case (Inr photos)
    have h2: "heap (snd lp) (next_addr s) = Some d"
      by (simp add: lpf s1f)
    define s3 where "s3 = mutate (next_addr s) (AList.update ''cover_image'' (cover_of photos)) (snd lp)"
    have s3: "s3 = (snd lp)\<lparr>heap := (heap (snd lp))(next_addr s \<mapsto>
        AList.update ''cover_image'' (cover_of photos) d)\<rparr>"
      unfolding s3_def by (rule mutate_at [OF h2])
    have h3: "heap s3 (next_addr s) = Some (AList.update ''cover_image'' (cover_of photos) d)"
      by (simp add: s3)
    from assms Some a Inr have res: "r = Inr (next_addr s)"
      "s' = mutate (next_addr s) (AList.delete ''photos_folder_id'') s3"
      by (auto simp: enrich_car_def lp_def [symmetric] s3_def split: prod.splits)
    have s': "s' = s3\<lparr>heap := (heap s3)(next_addr s \<mapsto> list_entry d photos)\<rparr>"
      unfolding res(2) list_entry_def by (rule mutate_at [OF h3])
    have "lp = (Inr photos, s'\<lparr>heap := heap s1\<rparr>)"
      using Inr by (simp add: s' s3 prod_eq_iff lpf [symmetric])
    then have lp': "load_photos e (folder_arg (map_of d ''photos_folder_id'')) (snd (alloc d s))
        = (Inr photos, s'\<lparr>heap := heap (snd (alloc d s))\<rparr>)"
      by (simp add: lp_def s1_def)
    have "extends s s'" "cache s' = cache s" "append_calls s' = append_calls s"
      "users_rows s' = users_rows s" "next_addr s' = Suc (next_addr s)"
      "heap s' (next_addr s) = Some (list_entry d photos)"
      using ext1 by (simp_all add: s' s3 lpf s1f extends_def)
    with lp' Some show ?thesis
      by (simp add: res(1))
  qed
qed

lemma enrich_cars_result:
  assumes "enrich_cars e cs s = (r, s')"
  shows "extends s s' \<and> cache s' = cache s \<and> append_calls s' = append_calls s \<and>
     users_rows s' = users_rows s"
  using assms
proof (induction cs arbitrary: s r s')
  case Nil
  then show ?case by simp
next
  case (Cons c cs)
  obtain r1 s1 where ec: "enrich_car e c s = (r1, s1)" by force
  note f1 = enrich_car_result [OF ec]
  show ?case
  proof (cases r1)
    case (Inl err)
    with Cons.prems ec have "s' = s1" by simp
    with f1 show ?thesis by simp
  next
    case (Inr car)
    obtain r2 s2 where es: "enrich_cars e cs s1 = (r2, s2)" by force
    from Cons.prems ec Inr es have "s' = s2" by (auto split: sum.splits)
    with Cons.IH [OF es] f1 show ?thesis
      by (auto intro: extends_trans)
  qed
qed

lemma enrich_cars_body:
  assumes "cars_ok s cs" and "enrich_cars e cs s = (Inr res, s')"
  shows "list_all2 (\<lambda>c a. next_addr s \<le> a \<and> a < next_addr s' \<and>
           (\<exists>d photos. heap s c = Some d \<and> heap s' a = Some (list_entry d photos))) cs res"
  using assms
proof (induction cs arbitrary: s res s')
  case Nil
  then show ?case by simp
next
  case (Cons c cs)
  obtain r1 s1 where ec: "enrich_car e c s = (r1, s1)" by force
  obtain r2 s2 where es: "enrich_cars e cs s1 = (r2, s2)" by force
  from Cons.prems(2) ec es obtain car tl where
    r: "r1 = Inr car" "r2 = Inr tl" "res = car # tl" "s' = s2"
    by (auto split: sum.splits)
  from enrich_car_result [OF ec] r(1) obtain d photos where
    f1: "extends s s1" "car = next_addr s" "next_addr s1 = Suc (next_addr s)"
      "heap s c = Some d" "heap s1 car = Some (list_entry d photos)"
    by auto
  from enrich_cars_result [OF es] have ext2: "extends s1 s2" by simp
  from Cons.prems(1) have ok: "cars_ok s cs" by (simp add: cars_ok_def)
  then have ok1: "cars_ok s1 cs" using f1(1) by (rule cars_ok_extends)
  have tail: "list_all2 (\<lambda>c a. next_addr s1 \<le> a \<and> a < next_addr s2 \<and>
           (\<exists>d photos. heap s1 c = Some d \<and> heap s2 a = Some (list_entry d photos))) cs tl"
    using Cons.IH [OF ok1] es r(2) by simp
  have old: "\<And>x. x \<in> set cs \<Longrightarrow> heap s1 x = heap s x"
    using ok f1(1) by (auto simp: cars_ok_def extends_def)
  have "list_all2 (\<lambda>c a. next_addr s \<le> a \<and> a < next_addr s2 \<and>
           (\<exists>d photos. heap s c = Some d \<and> heap s2 a = Some (list_entry d photos))) cs tl"
    using tail f1(3) old
    by (auto simp: list_all2_conv_all_nth)
  moreover have "heap s2 car = Some (list_entry d photos)" "car < next_addr s2"
    using ext2 f1 by (auto simp: extends_def)
  ultimately show ?case
    using f1 r by auto
qed

lemma first_url_photos:
  "first_url (map_of (AList.update ''photos'' (PStrs (map url photos)) d) ''photos'') = cover_of photos"
  by (cases photos) (simp_all add: first_url_def cover_of_def update_conv')

lemma detail_of_result:
  assumes "detail_of e found s = (r, s')"
  shows "extends s s' \<and> cache s' = cache s \<and> append_calls s' = append_calls s \<and>
     users_rows s' = users_rows s \<and>
     (case r of
        Inl err \<Rightarrow>
          (err = HTTPException 404 ''Car not found'' \<and>
             (found = None \<or> (\<exists>c. found = Some c \<and> (heap s c = None \<or> heap s c = Some [])))) \<or>
          (\<exists>c d m. found = Some c \<and> heap s c = Some d \<and> d \<noteq> [] \<and> err = Upstream m \<and>
             fst (load_photos e (folder_arg (map_of d ''photos_folder_id'')) (snd (alloc d s)))
               = Inl (Upstream m))
      | Inr car \<Rightarrow> car = next_addr s \<and> next_addr s' = Suc (next_addr s) \<and>
          (\<exists>c d photos. found = Some c \<and> heap s c = Some d \<and> d \<noteq> [] \<and>
             fst (load_photos e (folder_arg (map_of d ''photos_folder_id'')) (snd (alloc d s)))
               = Inr photos \<and>
             heap s' car = Some (detail_entry d photos)))"
proof (cases "case found of None \<Rightarrow> None | Some c \<Rightarrow> heap s c")
  case None
  with assms have "r = Inl (HTTPException 404 ''Car not found'')" "s' = s"
    by (auto simp: detail_of_def)
  with None show ?thesis by (auto split: option.splits)
next
  case (Some d)
  then obtain c where c: "found = Some c" "heap s c = Some d"
    by (auto split: option.splits)
  show ?thesis
  proof (cases "d = []")
    case True
    with assms Some have "r = Inl (HTTPException 404 ''Car not found'')" "s' = s"
      by (auto simp: detail_of_def)
    with c True show ?thesis by auto
  next
    case False
    define s1 where "s1 = snd (alloc d s)"
    define lp where "lp = load_photos e (folder_arg (map_of d ''photos_folder_id'')) s1"
    have a: "alloc d s = (next_addr s, s1)"
      by (simp add: s1_def alloc_def)
    have lpf: "cache (snd lp) = cache s1" "heap (snd lp) = heap s1"
      "next_addr (snd lp) = next_addr s1"
      "append_calls (snd lp) = append_calls s1" "users_rows (snd lp) = users_rows s1"
      using load_photos_fields [of e "folder_arg (map_of d ''photos_folder_id'')" s1 "fst lp" "snd lp"]
      by (simp_all add: lp_def)
    have s1f: "cache s1 = cache s" "heap s1 = (heap s)(next_addr s \<mapsto> d)"
      "next_addr s1 = Suc (next_addr s)" "append_calls s1 = append_calls s"
      "users_rows s1 = users_rows s"
      by (simp_all add: s1_def alloc_fields)
    have ext1: "extends s (snd lp)"
      by (simp add: extends_def lpf s1f)
    have lp_err: "\<And>err. fst lp = Inl err \<Longrightarrow> \<exists>m. err = Upstream m"
      by (auto simp: lp_def load_photos_def Let_def split: option.splits if_splits sum.splits)
    show ?thesis
    proof (cases "fst lp")
      case (Inl err)
      with assms Some False a have res: "r = Inl err" "s' = snd lp"
        by (auto simp: detail_of_def lp_def [symmetric] split: prod.splits)
      from lp_err [OF Inl] obtain m where m: "err = Upstream m" by blast
      have "fst (load_photos e (folder_arg (map_of d ''photos_folder_id'')) (snd (alloc d s)))
          = Inl (Upstream m)"
        using Inl m by (simp add: lp_def s1_def)
      with ext1 c False m show ?thesis
        by (simp add: res lpf s1f)
    next
      case (Inr photos)
      let ?car = "next_addr s"
      have h2: "heap (snd lp) ?car = Some d"
        by (simp add: lpf s1f)
      define d1 where "d1 = AList.update ''photos'' (PStrs (map url photos)) d"
      define s3 where "s3 = mutate ?car (AList.update ''photos'' (PStrs (map url photos))) (snd lp)"
      have s3: "s3 = (snd lp)\<lparr>heap := (heap (snd lp))(?car \<mapsto> d1)\<rparr>"
        unfolding s3_def d1_def by (rule mutate_at [OF h2])
      have h3: "heap s3 ?car = Some d1" by (simp add: s3)
      define s4 where "s4 = mutate ?car (\<lambda>d. AList.update ''cover_image'' (first_url (map_of d ''photos'')) d) s3"
      have s4: "s4 = s3\<lparr>heap := (heap s3)(?car \<mapsto> AList.update ''cover_image'' (cover_of photos) d1)\<rparr>"
        unfolding s4_def using mutate_at [OF h3] first_url_photos [of photos d]
        by (simp add: d1_def)
      have h4: "heap s4 ?car = Some (AList.update ''cover_image'' (cover_of photos) d1)"
        by (simp add: s4)
      from assms Some False a Inr have res: "r = Inr ?car"
        "s' = mutate ?car (AList.delete ''photos_folder_id'') s4"
        by (auto simp: detail_of_def lp_def [symmetric] s3_def s4_def split: prod.splits)
      have s': "s' = s4\<lparr>heap := (heap s4)(?car \<mapsto> detail_entry d photos)\<rparr>"
        unfolding res(2) detail_entry_def d1_def [symmetric] by (rule mutate_at [OF h4])
      have lp': "fst (load_photos e (folder_arg (map_of d ''photos_folder_id'')) (snd (alloc d s)))
          = Inr photos"
        using Inr by (simp add: lp_def s1_def)
      have "extends s s'" "cache s' = cache s" "append_calls s' = append_calls s"
        "users_rows s' = users_rows s" "next_addr s' = Suc (next_addr s)"
        "heap s' ?car = Some (detail_entry d photos)"
        using ext1 by (simp_all add: s' s4 s3 lpf s1f extends_def)
      with lp' c False show ?thesis
        by (simp add: res(1))
    qed
  qed
qed

lemma inv_api_profile: "inv s \<Longrightarrow> inv (snd (api_profile e s))"
  unfolding api_profile_def
  by (rule inv_load_profile [of s e "fst (load_profile e s)"]) simp_all

lemma inv_api_cars:
  assumes "inv s"
  shows "inv (snd (api_cars e req s))"
proof -
  define s0 where "s0 = append_user_event e req None s"
  obtain r s1 where lc: "load_cars e s0 = (r, s1)" by force
  have i0: "inv s0" using assms by (simp add: s0_def inv_append_user_event)
  have i1: "inv s1" by (rule inv_load_cars [OF i0 lc])
  show ?thesis
  proof (cases r)
    case (Inl err)
    with lc i1 show ?thesis by (simp add: api_cars_def s0_def [symmetric])
  next
    case (Inr c)
    show ?thesis
    proof (cases c)
      case (DProfile p)
      with Inr lc i1 show ?thesis by (simp add: api_cars_def s0_def [symmetric])
    next
      case (DCars cars)
      obtain r2 s2 where es: "enrich_cars e cars s1 = (r2, s2)" by force
      from enrich_cars_result [OF es] i1 have "inv s2" by (auto intro: inv_extends)
      with DCars Inr lc es show ?thesis by (simp add: api_cars_def s0_def [symmetric])
    qed
  qed
qed

lemma inv_api_car_detail:
  assumes "inv s"
  shows "inv (snd (api_car_detail e car_id req s))"
proof -
  define s0 where "s0 = append_user_event e req (Some car_id) s"
  obtain r s1 where lc: "load_cars e s0 = (r, s1)" by force
  have i0: "inv s0" using assms by (simp add: s0_def inv_append_user_event)
  have i1: "inv s1" by (rule inv_load_cars [OF i0 lc])
  show ?thesis
  proof (cases r)
    case (Inl err)
    with lc i1 show ?thesis by (simp add: api_car_detail_def s0_def [symmetric])
  next
    case (Inr c)
    show ?thesis
    proof (cases c)
      case (DProfile p)
      with Inr lc i1 show ?thesis by (simp add: api_car_detail_def s0_def [symmetric])
    next
      case (DCars cars)
      show ?thesis
      proof (cases "find_car (heap s1) car_id cars")
        case (Inl err)
        with DCars Inr lc i1 show ?thesis
          by (simp add: api_car_detail_def s0_def [symmetric])
      next
        case found: (Inr found)
        obtain r2 s2 where d: "detail_of e found s1 = (r2, s2)" by force
        from detail_of_result [OF d] i1 have "inv s2" by (auto intro: inv_extends)
        with DCars Inr lc found d show ?thesis
          by (simp add: api_car_detail_def s0_def [symmetric])
      qed
    qed
  qed
qed

lemma inv_init: "inv init_state"
  by (simp add: inv_def init_state_def)

lemma reachable_inv: "reachable s \<Longrightarrow> inv s"
  by (induction rule: reachable.induct)
     (simp_all add: inv_init inv_api_profile inv_api_cars inv_api_car_detail)

lemma car_dict_id: "map_of (car_dict i r) ''id'' = Some (PStr i)"
  by (simp add: car_dict_def)

lemma car_dict_status: "map_of (car_dict i r) ''status'' = Some (PStr (get_or r ''status'' ''active''))"
  by (simp add: car_dict_def)

lemma car_dict_folder:
  "map_of (car_dict i r) ''photos_folder_id'' = Some (PStr (py_strip (get_or r ''photos_folder_id'' [])))"
  by (simp add: car_dict_def)

lemma car_dict_nonempty: "car_dict i r \<noteq> []"
  by (simp add: car_dict_def)

lemma is_car_id: "is_car d \<Longrightarrow> \<exists>i. map_of d ''id'' = Some (PStr i) \<and> i \<noteq> []"
  by (auto simp: is_car_def kept_def car_dict_id)

lemma kept_status: "kept r \<Longrightarrow> get_or r ''status'' ''active'' \<noteq> ''hidden''"
  by (cases "map_of r ''status''") (simp_all add: kept_def get_or_def)

lemma is_car_status: "is_car d \<Longrightarrow> \<exists>st. map_of d ''status'' = Some (PStr st) \<and> st \<noteq> ''hidden''"
  by (auto simp: is_car_def car_dict_status kept_status)

lemma is_car_nonempty: "is_car d \<Longrightarrow> d \<noteq> []"
  by (auto simp: is_car_def car_dict_nonempty)

lemma find_car_none:
  "cars_ok s cars \<Longrightarrow>
   (find_car (heap s) car_id cars = Inr None) = (\<forall>a\<in>set cars. id_at s a \<noteq> Some (PStr car_id))"
proof (induction cars)
  case Nil
  then show ?case by simp
next
  case (Cons c cars)
  from Cons.prems obtain d i where d: "heap s c = Some d" "map_of d ''id'' = Some (PStr i)"
    by (auto simp: cars_ok_def dest: is_car_id)
  from Cons.prems have "cars_ok s cars" by (simp add: cars_ok_def)
  with Cons.IH d show ?case
    by (auto simp: id_at_def)
qed

lemma find_car_some:
  "cars_ok s cars \<Longrightarrow> find_car (heap s) car_id cars = Inr (Some a) \<Longrightarrow>
   \<exists>pre post. cars = pre @ a # post \<and> (\<forall>b\<in>set pre. id_at s b \<noteq> Some (PStr car_id)) \<and>
     id_at s a = Some (PStr car_id)"
proof (induction cars)
  case Nil
  then show ?case by simp
next
  case (Cons c cars)
  from Cons.prems obtain d i where d: "heap s c = Some d" "map_of d ''id'' = Some (PStr i)"
    by (auto simp: cars_ok_def dest: is_car_id)
  from Cons.prems have ok: "cars_ok s cars" by (simp add: cars_ok_def)
  show ?case
  proof (cases "i = car_id")
    case True
    with Cons.prems d have "a = c" by simp
    with True d have "c # cars = [] @ a # cars \<and> (\<forall>b\<in>set []. id_at s b \<noteq> Some (PStr car_id)) \<and>
        id_at s a = Some (PStr car_id)"
      by (simp add: id_at_def)
    then show ?thesis by blast
  next
    case False
    with Cons.prems d have "find_car (heap s) car_id cars = Inr (Some a)" by simp
    from Cons.IH [OF ok this] obtain pre post where
      p: "cars = pre @ a # post" "\<forall>b\<in>set pre. id_at s b \<noteq> Some (PStr car_id)"
        "id_at s a = Some (PStr car_id)" by blast
    with False d have "c # cars = (c # pre) @ a # post \<and>
        (\<forall>b\<in>set (c # pre). id_at s b \<noteq> Some (PStr car_id)) \<and> id_at s a = Some (PStr car_id)"
      by (simp add: id_at_def)
    then show ?thesis by blast
  qed
qed

section \<open>The sample shop, evaluated\<close>

lemma row_item_shop:
  "row_item [''id'', ''status'', ''year'', ''price_usd'', ''photos_folder_id'']
     [''c1'', [], ''n/a'', ''$12,345.00'', ''F1''] = shop_row"
  by (simp add: row_item_def shop_row_def enumerate_eq_zip upt_rec)

lemma row_item_hidden:
  "row_item [''id'', ''status'', ''year'', ''price_usd'', ''photos_folder_id'']
     [''c2'', ''hidden''] = hidden_row"
  by (simp add: row_item_def hidden_row_def enumerate_eq_zip upt_rec)

lemma row_item_blank:
  "row_item [''id'', ''status'', ''year'', ''price_usd'', ''photos_folder_id''] ['' ''] = blank_row"
  by (simp add: row_item_def blank_row_def enumerate_eq_zip upt_rec)

lemma read_sheet_shop:
  "read_sheet env_shop ''cars'' s =
     (Inr [shop_row, hidden_row, blank_row], s\<lparr>sheet_reads := sheet_reads s @ [''cars'']\<rparr>)"
  by (simp add: read_sheet_def env_shop_def Let_def row_item_shop row_item_hidden row_item_blank)

lemma row_id_shop: "row_id shop_row = ''c1''"
  by (simp add: row_id_def shop_row_def get_or_def py_strip_def py_isspace_def)

lemma row_id_blank: "row_id blank_row = []"
  by (simp add: row_id_def blank_row_def get_or_def py_strip_def py_isspace_def)

lemma row_id_hidden: "row_id hidden_row = ''c2''"
  by (simp add: row_id_def hidden_row_def get_or_def py_strip_def py_isspace_def)

lemma status_shop: "map_of shop_row ''status'' = Some []"
  by (simp add: shop_row_def)

lemma status_hidden: "map_of hidden_row ''status'' = Some ''hidden''"
  by (simp add: hidden_row_def)

lemma build_cars_shop:
  "build_cars [shop_row, hidden_row, blank_row] s = ([next_addr s], snd (alloc shop_car s))"
  by (simp add: row_id_shop row_id_blank row_id_hidden status_shop status_hidden shop_car_def
      alloc_def)

lemma clock_shop: "clock env_shop n = 100"
  by (simp add: env_shop_def)

lemma load_cars_miss_shop:
  "load_cars_miss env_shop s =
     (Inr (DCars [next_addr s]),
      s\<lparr>sheet_reads := sheet_reads s @ [''cars''],
        heap := (heap s)(next_addr s \<mapsto> shop_car), next_addr := Suc (next_addr s),
        ticks := Suc (ticks s),
        cache := (cache s)(''cars'' \<mapsto> \<lparr>data = DCars [next_addr s], ts = 100\<rparr>)\<rparr>)"
  by (simp add: load_cars_miss_def read_sheet_shop build_cars_shop alloc_def random_shuffle_def
      time_time_def set_cache_def clock_shop del: build_cars.simps)

section \<open>What the list of cars holds\<close>

lemma not_kept_differs:
  assumes "is_car d" and "\<not> kept r"
  shows "d \<noteq> car_dict (row_id r) r"
proof
  assume eq: "d = car_dict (row_id r) r"
  from is_car_id [OF assms(1)] eq have id: "row_id r \<noteq> []"
    by (simp add: car_dict_id)
  from is_car_status [OF assms(1)] eq have "get_or r ''status'' ''active'' \<noteq> ''hidden''"
    by (simp add: car_dict_status)
  then have "map_of r ''status'' \<noteq> Some ''hidden''"
    by (auto simp: get_or_def)
  with id assms(2) show False by (simp add: kept_def)
qed

text \<open>
  C4. In every state the process can reach, in every environment: the list \<^verbatim>\<open>load_cars\<close>
  returns, and the list the cache then holds under \<^verbatim>\<open>"cars"\<close>, consist of dictionaries
  built from rows whose trimmed id is not empty and whose status is not \<^verbatim>\<open>"hidden"\<close>;
  none of them is the dictionary of a row with an empty or blank id or of a hidden row.
\<close>

theorem load_cars_visible:
  assumes "reachable s" and "load_cars e s = (Inr c, s')"
  shows "\<exists>cars. c = DCars cars \<and>
     (\<forall>a\<in>set cars. \<exists>d. heap s' a = Some d \<and> is_car d \<and>
        (\<forall>r. \<not> kept r \<longrightarrow> d \<noteq> car_dict (row_id r) r)) \<and>
     (\<forall>ent. cache s' ''cars'' = Some ent \<longrightarrow>
        (\<exists>cs. data ent = DCars cs \<and>
           (\<forall>a\<in>set cs. \<exists>d. heap s' a = Some d \<and> is_car d \<and>
              (\<forall>r. \<not> kept r \<longrightarrow> d \<noteq> car_dict (row_id r) r))))"
proof -
  have i: "inv s" by (rule reachable_inv [OF assms(1)])
  from load_cars_typed [OF i assms(2)] obtain cars where
    c: "c = DCars cars" "cars_ok s' cars" by blast
  have i': "inv s'" by (rule inv_load_cars [OF i assms(2)])
  have ok: "\<And>cs. cars_ok s' cs \<Longrightarrow>
      \<forall>a\<in>set cs. \<exists>d. heap s' a = Some d \<and> is_car d \<and>
        (\<forall>r. \<not> kept r \<longrightarrow> d \<noteq> car_dict (row_id r) r)"
    using not_kept_differs by (fastforce simp: cars_ok_def)
  have "\<forall>ent. cache s' ''cars'' = Some ent \<longrightarrow>
        (\<exists>cs. data ent = DCars cs \<and>
           (\<forall>a\<in>set cs. \<exists>d. heap s' a = Some d \<and> is_car d \<and>
              (\<forall>r. \<not> kept r \<longrightarrow> d \<noteq> car_dict (row_id r) r)))"
    using i' ok unfolding inv_def by blast
  with c ok show ?thesis by blast
qed

lemma load_cars_shop_init:
  "load_cars env_shop init_state =
     (Inr (DCars [0]),
      init_state\<lparr>sheet_reads := [''cars''], heap := [0 \<mapsto> shop_car], next_addr := 1,
        ticks := 2, cache := [''cars'' \<mapsto> \<lparr>data = DCars [0], ts = 100\<rparr>]\<rparr>)"
  by (simp add: load_cars_def time_time_def get_cached_def load_cars_miss_shop init_state_def)

theorem load_cars_visible_witness:
  "reachable init_state \<and>
   fst (load_cars env_shop init_state) = Inr (DCars [0]) \<and>
   (\<exists>d. heap (snd (load_cars env_shop init_state)) 0 = Some d \<and> is_car d \<and>
      d \<noteq> car_dict (row_id hidden_row) hidden_row \<and>
      d \<noteq> car_dict (row_id blank_row) blank_row)"
proof -
  have k: "\<not> kept hidden_row" "\<not> kept blank_row"
    by (simp_all add: kept_def status_hidden row_id_blank)
  have "load_cars env_shop init_state = (Inr (DCars [0]), snd (load_cars env_shop init_state))"
    by (simp add: load_cars_shop_init)
  from load_cars_visible [OF reachable.start this] k show ?thesis
    by (auto simp: reachable.start load_cars_shop_init)
qed

section \<open>Numbers that do not parse\<close>



















section \<open>An empty list of cars, and an empty status\<close>

lemma load_cars_again:
  assumes "load_cars e s = (Inr (DCars cars), s1)"
    and "\<not> cache_hit (cache s) (clock e (ticks s)) ''cars'' CACHE_TTL_CARS"
    and "cars \<noteq> []"
    and "clock e2 (ticks s1) - clock e (Suc (ticks s)) \<le> 300"
  shows "load_cars e2 s1 = (Inr (DCars cars), s1\<lparr>ticks := Suc (ticks s1)\<rparr>)"
proof -
  from load_cars_result [OF assms(1)] assms(2)
  have "cache s1 = (cache s)(''cars'' \<mapsto> \<lparr>data = DCars cars, ts = clock e (Suc (ticks s))\<rparr>)"
    by auto
  with assms(3,4) show ?thesis
    by (simp add: load_cars_def time_time_def get_cached_def CACHE_TTL_CARS_def)
qed

lemma load_cars_bare_init:
  "load_cars env_bare init_state =
     (Inr (DCars []),
      init_state\<lparr>sheet_reads := [''cars''], ticks := 2,
        cache := [''cars'' \<mapsto> \<lparr>data = DCars [], ts = 100\<rparr>]\<rparr>)"
  by (simp add: load_cars_def load_cars_miss_def read_sheet_def time_time_def get_cached_def
      set_cache_def random_shuffle_def Let_def init_state_def env_bare_def)

lemma load_cars_shop_after_bare:
  "load_cars env_shop
     (init_state\<lparr>sheet_reads := [''cars''], ticks := 2,
        cache := [''cars'' \<mapsto> \<lparr>data = DCars [], ts = 100\<rparr>]\<rparr>) =
     (Inr (DCars [0]),
      init_state\<lparr>sheet_reads := [''cars'', ''cars''], heap := [0 \<mapsto> shop_car], next_addr := 1,
        ticks := 4, cache := [''cars'' \<mapsto> \<lparr>data = DCars [0], ts = 100\<rparr>]\<rparr>)"
  by (simp add: load_cars_def time_time_def get_cached_def load_cars_miss_shop init_state_def
      clock_shop CACHE_TTL_CARS_def)

text \<open>
  C2, at the input where the code departs from it. The sheet of cars is empty at the first
  call, which stores the empty list at time 100. The second call comes at time 100, within
  the 300 seconds, when the sheet has a car: \<^verbatim>\<open>if cached:\<close> takes the cached empty list for
  a miss, so the call reads the spreadsheet again and returns another list.
\<close>

theorem empty_list_is_fetched_again:
  "fst (load_cars env_bare init_state) = Inr (DCars []) \<and>
   cache (snd (load_cars env_bare init_state)) ''cars'' = Some \<lparr>data = DCars [], ts = 100\<rparr> \<and>
   clock env_shop (ticks (snd (load_cars env_bare init_state))) - 100 < 300 \<and>
   fst (load_cars env_shop (snd (load_cars env_bare init_state))) = Inr (DCars [0]) \<and>
   sheet_reads (snd (load_cars env_shop (snd (load_cars env_bare init_state))))
     = [''cars'', ''cars'']"
  by (simp add: load_cars_bare_init load_cars_shop_after_bare clock_shop)

text \<open>
  C3, at the input where the code departs from it. \<^verbatim>\<open>r.get("status", "active")\<close> gives
  \<^verbatim>\<open>"active"\<close> only for a row without the key, and \<^verbatim>\<open>read_sheet\<close> gives every row every
  header's key: the car of the sample shop, whose status cell is empty, is loaded with the
  empty status.
\<close>

theorem empty_status_stays_empty:
  "map_of (car_dict i r) ''status''
     = Some (PStr (case map_of r ''status'' of None \<Rightarrow> ''active'' | Some v \<Rightarrow> v)) \<and>
   row_item [''id'', ''status''] [''c1''] = [(''id'', ''c1''), (''status'', [])] \<and>
   fst (load_cars env_shop init_state) = Inr (DCars [0]) \<and>
   map_option (\<lambda>d. map_of d ''status'') (heap (snd (load_cars env_shop init_state)) 0)
     = Some (Some (PStr []))"
  by (simp add: car_dict_status get_or_def load_cars_shop_init shop_car_def status_shop
      row_item_def enumerate_eq_zip upt_rec)

section \<open>The event logger never fails a request\<close>

lemma append_user_event_eq:
  "append_user_event e req c s =
     (case sheet_append e users_range (event_row e req c s) of
        Some m \<Rightarrow>
          s\<lparr>ticks := Suc (ticks s),
            append_calls := append_calls s @ [(users_range, event_row e req c s)],
            stdout := stdout s @ [(''USER LOG ERROR:'', Upstream m)]\<rparr>
      | None \<Rightarrow>
          s\<lparr>ticks := Suc (ticks s),
            append_calls := append_calls s @ [(users_range, event_row e req c s)],
            users_rows := users_rows s @ [event_row e req c s]\<rparr>)"
  by (simp add: append_user_event_def append_user_event_try_def event_row_def Let_def
      split: option.splits)

lemma append_user_event_relog:
  "\<exists>u out. append_user_event e req c s =
     relog u out (s\<lparr>ticks := Suc (ticks s),
       append_calls := append_calls s @ [(users_range, event_row e req c s)]\<rparr>)"
proof (cases "sheet_append e users_range (event_row e req c s)")
  case None
  then have "append_user_event e req c s =
     relog (users_rows s @ [event_row e req c s]) (stdout s) (s\<lparr>ticks := Suc (ticks s),
       append_calls := append_calls s @ [(users_range, event_row e req c s)]\<rparr>)"
    by (simp add: append_user_event_eq relog_def)
  then show ?thesis by blast
next
  case (Some m)
  then have "append_user_event e req c s =
     relog (users_rows s) (stdout s @ [(''USER LOG ERROR:'', Upstream m)]) (s\<lparr>ticks := Suc (ticks s),
       append_calls := append_calls s @ [(users_range, event_row e req c s)]\<rparr>)"
    by (simp add: append_user_event_eq relog_def)
  then show ?thesis by blast
qed

lemma event_row_env [simp]: "event_row (e\<lparr>sheet_append := f\<rparr>) req c s = event_row e req c s"
  by (simp add: event_row_def)

lemma read_sheet_relog:
  "read_sheet e n (relog u out s) = (fst (read_sheet e n s), relog u out (snd (read_sheet e n s)))"
  by (simp add: read_sheet_def relog_def Let_def split: sum.splits option.splits list.splits)

lemma build_cars_relog:
  "build_cars rows (relog u out s) = (fst (build_cars rows s), relog u out (snd (build_cars rows s)))"
proof (induction rows arbitrary: s)
  case Nil
  then show ?case by simp
next
  case (Cons r rows)
  have a: "snd (alloc (car_dict (row_id r) r) (relog u out s))
      = relog u out (snd (alloc (car_dict (row_id r) r) s))"
    "fst (alloc (car_dict (row_id r) r) (relog u out s)) = fst (alloc (car_dict (row_id r) r) s)"
    by (simp_all add: alloc_def relog_def)
  show ?case
    by (simp add: case_prod_beta a Cons.IH)
qed

lemma random_shuffle_relog:
  "random_shuffle e xs (relog u out s)
     = (fst (random_shuffle e xs s), relog u out (snd (random_shuffle e xs s)))"
  by (simp add: random_shuffle_def relog_def case_prod_beta)

lemma load_cars_miss_relog:
  "load_cars_miss e (relog u out s)
     = (fst (load_cars_miss e s), relog u out (snd (load_cars_miss e s)))"
proof -
  have t: "\<And>s. time_time e (relog u out s) = (fst (time_time e s), relog u out (snd (time_time e s)))"
    by (simp add: time_time_def relog_def)
  have c: "\<And>s x. cache (relog u out s) = cache s"
    by (simp add: relog_def)
  have k: "\<And>s x. relog u out s\<lparr>cache := x\<rparr> = relog u out (s\<lparr>cache := x\<rparr>)"
    by (simp add: relog_def)
  show ?thesis
    by (simp add: load_cars_miss_def read_sheet_relog build_cars_relog random_shuffle_relog t c k
        case_prod_beta split: sum.splits)
qed

lemma load_cars_relog:
  "load_cars e (relog u out s) = (fst (load_cars e s), relog u out (snd (load_cars e s)))"
proof -
  have t: "time_time e (relog u out s) = (fst (time_time e s), relog u out (snd (time_time e s)))"
    by (simp add: time_time_def relog_def)
  have c: "\<And>s. cache (relog u out s) = cache s"
    by (simp add: relog_def)
  show ?thesis
    by (simp add: load_cars_def t c load_cars_miss_relog case_prod_beta split: option.splits)
qed

lemma load_photos_relog:
  "load_photos e f (relog u out s)
     = (fst (load_photos e f s), relog u out (snd (load_photos e f s)))"
  by (simp add: load_photos_def relog_def Let_def split: option.splits sum.splits)

lemma mutate_relog: "mutate a f (relog u out s) = relog u out (mutate a f s)"
  by (simp add: mutate_def relog_def split: option.splits)

lemma enrich_car_relog:
  "enrich_car e c (relog u out s) = (fst (enrich_car e c s), relog u out (snd (enrich_car e c s)))"
proof -
  have h: "heap (relog u out s) = heap s" by (simp add: relog_def)
  have a: "\<And>d. alloc d (relog u out s) = (fst (alloc d s), relog u out (snd (alloc d s)))"
    by (simp add: alloc_def relog_def)
  show ?thesis
    by (simp add: enrich_car_def h a load_photos_relog mutate_relog case_prod_beta
        split: option.splits sum.splits)
qed

lemma enrich_cars_relog:
  "enrich_cars e cs (relog u out s)
     = (fst (enrich_cars e cs s), relog u out (snd (enrich_cars e cs s)))"
  by (induction cs arbitrary: s)
     (simp_all add: enrich_car_relog case_prod_beta split: sum.splits)

lemma read_sheet_env [simp]: "read_sheet (e\<lparr>sheet_append := f\<rparr>) n s = read_sheet e n s"
  by (simp add: read_sheet_def)

lemma random_shuffle_env [simp]:
  "random_shuffle (e\<lparr>sheet_append := f\<rparr>) xs s = random_shuffle e xs s"
  by (simp add: random_shuffle_def)

lemma time_time_env [simp]: "time_time (e\<lparr>sheet_append := f\<rparr>) s = time_time e s"
  by (simp add: time_time_def)

lemma load_photos_env [simp]: "load_photos (e\<lparr>sheet_append := f\<rparr>) x s = load_photos e x s"
  by (simp add: load_photos_def Let_def cong: option.case_cong if_cong)

lemma load_cars_miss_env [simp]: "load_cars_miss (e\<lparr>sheet_append := f\<rparr>) s = load_cars_miss e s"
  by (simp add: load_cars_miss_def cong: sum.case_cong prod.case_cong)

lemma load_cars_env [simp]: "load_cars (e\<lparr>sheet_append := f\<rparr>) s = load_cars e s"
  by (simp add: load_cars_def cong: option.case_cong prod.case_cong if_cong)

lemma enrich_car_env [simp]: "enrich_car (e\<lparr>sheet_append := f\<rparr>) c s = enrich_car e c s"
  by (simp add: enrich_car_def cong: option.case_cong prod.case_cong sum.case_cong)

lemma enrich_cars_env [simp]: "enrich_cars (e\<lparr>sheet_append := f\<rparr>) cs s = enrich_cars e cs s"
  by (induction cs arbitrary: s) (simp_all cong: prod.case_cong sum.case_cong)

text \<open>What \<^verbatim>\<open>api_cars\<close> does after the event was logged.\<close>

lemma api_cars_relog:
  "\<exists>u out. api_cars e req s =
     (fst (api_cars (e\<lparr>sheet_append := \<lambda>r x. None\<rparr>) req s),
      relog u out (snd (api_cars (e\<lparr>sheet_append := \<lambda>r x. None\<rparr>) req s)))"
proof -
  define s0 where "s0 = s\<lparr>ticks := Suc (ticks s),
       append_calls := append_calls s @ [(users_range, event_row e req None s)]\<rparr>"
  define rest where "rest = (\<lambda>s. case load_cars e s of
        (Inl err, s1) \<Rightarrow> (Inl err, s1)
      | (Inr (DProfile p), s1) \<Rightarrow> (Inl TypeError, s1)
      | (Inr (DCars cars), s1) \<Rightarrow> enrich_cars e cars s1)"
  have rest: "\<And>u out s. rest (relog u out s) = (fst (rest s), relog u out (snd (rest s)))"
    by (simp add: rest_def load_cars_relog enrich_cars_relog case_prod_beta
        split: sum.splits cached.splits)
  have api: "\<And>e'. api_cars (e\<lparr>sheet_append := e'\<rparr>) req s
      = rest (append_user_event (e\<lparr>sheet_append := e'\<rparr>) req None s)"
    by (simp add: api_cars_def rest_def cong: prod.case_cong sum.case_cong cached.case_cong)
  have api0: "api_cars e req s = rest (append_user_event e req None s)"
    by (simp add: api_cars_def rest_def)
  obtain u out where 1: "append_user_event e req None s = relog u out s0"
    using append_user_event_relog [of e req None s] unfolding s0_def by blast
  obtain u' out' where 2:
    "append_user_event (e\<lparr>sheet_append := \<lambda>r x. None\<rparr>) req None s = relog u' out' s0"
    using append_user_event_relog [of "e\<lparr>sheet_append := \<lambda>r x. None\<rparr>" req None s]
    unfolding s0_def by auto
  have "relog u out (relog u' out' (snd (rest s0))) = relog u out (snd (rest s0))"
    by (simp add: relog_def)
  then have "api_cars e req s =
     (fst (api_cars (e\<lparr>sheet_append := \<lambda>r x. None\<rparr>) req s),
      relog u out (snd (api_cars (e\<lparr>sheet_append := \<lambda>r x. None\<rparr>) req s)))"
    by (simp add: api api0 1 2 rest)
  then show ?thesis by blast
qed

text \<open>
  C7. \<^verbatim>\<open>GET /api/cars\<close> answers, in the same state and the same world, the same whether
  the spreadsheet takes the appended row or refuses it (\<open>f\<close> and \<open>g\<close> are any two behaviours
  of the append): the same status, the same list of cars, the same dictionaries, and the
  same cache. An exception raised in the body of \<^verbatim>\<open>append_user_event\<close> ends there: when the
  append raises, the function prints the exception and returns.
\<close>

theorem append_failure_is_invisible:
  "fst (api_cars (e\<lparr>sheet_append := f\<rparr>) req s) = fst (api_cars (e\<lparr>sheet_append := g\<rparr>) req s) \<and>
   heap (snd (api_cars (e\<lparr>sheet_append := f\<rparr>) req s))
     = heap (snd (api_cars (e\<lparr>sheet_append := g\<rparr>) req s)) \<and>
   cache (snd (api_cars (e\<lparr>sheet_append := f\<rparr>) req s))
     = cache (snd (api_cars (e\<lparr>sheet_append := g\<rparr>) req s)) \<and>
   fst (append_user_event_try (e\<lparr>sheet_append := \<lambda>r x. Some m\<rparr>) req c s) = Inl (Upstream m) \<and>
   stdout (append_user_event (e\<lparr>sheet_append := \<lambda>r x. Some m\<rparr>) req c s)
     = stdout s @ [(''USER LOG ERROR:'', Upstream m)]"
proof -
  have caught:
    "fst (append_user_event_try (e\<lparr>sheet_append := \<lambda>r x. Some m\<rparr>) req c s) = Inl (Upstream m)"
    "stdout (append_user_event (e\<lparr>sheet_append := \<lambda>r x. Some m\<rparr>) req c s)
       = stdout s @ [(''USER LOG ERROR:'', Upstream m)]"
    by (simp_all add: append_user_event_def append_user_event_try_def Let_def)
  obtain u out where 1: "api_cars (e\<lparr>sheet_append := f\<rparr>) req s =
     (fst (api_cars (e\<lparr>sheet_append := \<lambda>r x. None\<rparr>) req s),
      relog u out (snd (api_cars (e\<lparr>sheet_append := \<lambda>r x. None\<rparr>) req s)))"
    using api_cars_relog [of "e\<lparr>sheet_append := f\<rparr>" req s] by auto
  obtain u' out' where 2: "api_cars (e\<lparr>sheet_append := g\<rparr>) req s =
     (fst (api_cars (e\<lparr>sheet_append := \<lambda>r x. None\<rparr>) req s),
      relog u' out' (snd (api_cars (e\<lparr>sheet_append := \<lambda>r x. None\<rparr>) req s)))"
    using api_cars_relog [of "e\<lparr>sheet_append := g\<rparr>" req s] by auto
  show ?thesis
    by (simp add: 1 2 caught relog_def)
qed

section \<open>The detail handler logs first\<close>

lemma append_user_event_calls:
  "append_calls (append_user_event e req c s)
     = append_calls s @ [(users_range, event_row e req c s)]"
  by (simp add: append_user_event_eq split: option.splits)

lemma append_user_event_rows:
  "sheet_append e users_range (event_row e req c s) = None \<Longrightarrow>
   users_rows (append_user_event e req c s) = users_rows s @ [event_row e req c s]"
  by (simp add: append_user_event_eq)

lemma api_car_detail_logs:
  "append_calls (snd (api_car_detail e car_id req s))
     = append_calls (append_user_event e req (Some car_id) s) \<and>
   users_rows (snd (api_car_detail e car_id req s))
     = users_rows (append_user_event e req (Some car_id) s)"
proof -
  define s0 where "s0 = append_user_event e req (Some car_id) s"
  obtain r s1 where lc: "load_cars e s0 = (r, s1)" by force
  from load_cars_result [OF lc] have l1: "append_calls s1 = append_calls s0"
    "users_rows s1 = users_rows s0" by simp_all
  show ?thesis
  proof (cases r)
    case (Inl err)
    with lc l1 show ?thesis by (simp add: api_car_detail_def s0_def [symmetric])
  next
    case (Inr c)
    show ?thesis
    proof (cases c)
      case (DProfile p)
      with Inr lc l1 show ?thesis by (simp add: api_car_detail_def s0_def [symmetric])
    next
      case (DCars cars)
      show ?thesis
      proof (cases "find_car (heap s1) car_id cars")
        case (Inl err)
        with DCars Inr lc l1 show ?thesis
          by (simp add: api_car_detail_def s0_def [symmetric])
      next
        case found: (Inr found)
        obtain r2 s2 where d: "detail_of e found s1 = (r2, s2)" by force
        from detail_of_result [OF d] l1 have "append_calls s2 = append_calls s0"
          "users_rows s2 = users_rows s0" by simp_all
        with DCars Inr lc found d show ?thesis
          by (simp add: api_car_detail_def s0_def [symmetric])
      qed
    qed
  qed
qed

text \<open>The detail handler when no car of the list has the id.\<close>

lemma api_car_detail_no_match:
  assumes "reachable s"
    and "load_cars e (append_user_event e req (Some car_id) s) = (Inr (DCars cars), s1)"
    and "\<forall>a\<in>set cars. id_at s1 a \<noteq> Some (PStr car_id)"
  shows "api_car_detail e car_id req s = (Inl (HTTPException 404 ''Car not found''), s1)"
proof -
  have "inv (append_user_event e req (Some car_id) s)"
    using reachable_inv [OF assms(1)] by (simp add: inv_append_user_event)
  from load_cars_typed [OF this assms(2)] have ok: "cars_ok s1 cars" by simp
  from find_car_none [OF ok, of car_id] assms(3)
  have "find_car (heap s1) car_id cars = Inr None" by simp
  with assms(2) show ?thesis
    by (simp add: api_car_detail_def detail_of_def)
qed

text \<open>
  C10. \<^verbatim>\<open>GET /api/cars/{car_id}\<close> sends the append of the event row, which ends with the
  car id, before it loads and searches the cars: whatever the outcome of the request, the
  appends sent are those sent before and this one, and the row is in the sheet when the
  spreadsheet took it. When the list loaded after the append has no car with the id, the
  request is answered with 404, the append having been sent.
\<close>

theorem detail_logs_before_lookup:
  "append_calls (snd (api_car_detail e car_id req s))
     = append_calls s @ [(users_range, event_row e req (Some car_id) s)] \<and>
   last (event_row e req (Some car_id) s) = car_id \<and>
   (sheet_append e users_range (event_row e req (Some car_id) s) = None \<longrightarrow>
      users_rows (snd (api_car_detail e car_id req s))
        = users_rows s @ [event_row e req (Some car_id) s]) \<and>
   (reachable s \<and>
    load_cars e (append_user_event e req (Some car_id) s) = (Inr (DCars cars), s1) \<and>
    (\<forall>a\<in>set cars. id_at s1 a \<noteq> Some (PStr car_id)) \<longrightarrow>
      fst (api_car_detail e car_id req s) = Inl (HTTPException 404 ''Car not found'') \<and>
      append_calls (snd (api_car_detail e car_id req s))
        = append_calls s @ [(users_range, event_row e req (Some car_id) s)])"
proof -
  have calls: "append_calls (snd (api_car_detail e car_id req s))
     = append_calls s @ [(users_range, event_row e req (Some car_id) s)]"
    using api_car_detail_logs [of e car_id req s] by (simp add: append_user_event_calls)
  have rows: "sheet_append e users_range (event_row e req (Some car_id) s) = None \<longrightarrow>
      users_rows (snd (api_car_detail e car_id req s))
        = users_rows s @ [event_row e req (Some car_id) s]"
    using api_car_detail_logs [of e car_id req s] by (simp add: append_user_event_rows)
  have last: "last (event_row e req (Some car_id) s) = car_id"
    by (simp add: event_row_def)
  have nf: "reachable s \<and>
    load_cars e (append_user_event e req (Some car_id) s) = (Inr (DCars cars), s1) \<and>
    (\<forall>a\<in>set cars. id_at s1 a \<noteq> Some (PStr car_id)) \<longrightarrow>
      fst (api_car_detail e car_id req s) = Inl (HTTPException 404 ''Car not found'')"
    using api_car_detail_no_match [of s e req car_id cars s1] by simp
  from calls rows last nf show ?thesis by blast
qed

lemma load_cars_shop_cold:
  "cache s ''cars'' = None \<Longrightarrow>
   load_cars env_shop s =
     (Inr (DCars [next_addr s]),
      s\<lparr>sheet_reads := sheet_reads s @ [''cars''],
        heap := (heap s)(next_addr s \<mapsto> shop_car), next_addr := Suc (next_addr s),
        ticks := Suc (Suc (ticks s)),
        cache := (cache s)(''cars'' \<mapsto> \<lparr>data = DCars [next_addr s], ts = 100\<rparr>)\<rparr>)"
  by (simp add: load_cars_def time_time_def get_cached_def load_cars_miss_shop)

lemma append_shop: "sheet_append env_shop r x = None"
  by (simp add: env_shop_def)

lemma event_row_zz:
  "event_row env_shop req_zz (Some ''zz'') init_state
     = [''2024-01-01T00:00:00'', ''10.0.0.7'', ''curl/8'', ''/api/cars/zz'', ''zz'']"
  by (simp add: event_row_def env_shop_def req_zz_def)

lemma logged_zz:
  "append_user_event env_shop req_zz (Some ''zz'') init_state =
     init_state\<lparr>ticks := 1,
       append_calls := [(users_range, event_row env_shop req_zz (Some ''zz'') init_state)],
       users_rows := [event_row env_shop req_zz (Some ''zz'') init_state]\<rparr>"
  by (simp add: append_user_event_eq append_shop) (simp add: init_state_def)

lemma load_after_zz:
  "load_cars env_shop (append_user_event env_shop req_zz (Some ''zz'') init_state) =
     (Inr (DCars [0]),
      init_state\<lparr>ticks := 3,
        append_calls := [(users_range, event_row env_shop req_zz (Some ''zz'') init_state)],
        users_rows := [event_row env_shop req_zz (Some ''zz'') init_state],
        sheet_reads := [''cars''], heap := [0 \<mapsto> shop_car], next_addr := 1,
        cache := [''cars'' \<mapsto> \<lparr>data = DCars [0], ts = 100\<rparr>]\<rparr>)"
proof -
  have c: "cache (append_user_event env_shop req_zz (Some ''zz'') init_state) ''cars'' = None"
    by (simp add: append_user_event_fields init_state_def)
  show ?thesis
    unfolding load_cars_shop_cold [OF c]
    by (simp add: logged_zz) (simp add: init_state_def)
qed

lemma shop_car_id: "map_of shop_car ''id'' = Some (PStr ''c1'')"
  by (simp add: shop_car_def car_dict_id)

theorem detail_logs_before_lookup_witness:
  "sheet_append env_shop users_range (event_row env_shop req_zz (Some ''zz'') init_state) = None \<and>
   reachable init_state \<and>
   fst (load_cars env_shop (append_user_event env_shop req_zz (Some ''zz'') init_state))
     = Inr (DCars [0]) \<and>
   id_at (snd (load_cars env_shop (append_user_event env_shop req_zz (Some ''zz'') init_state))) 0
     = Some (PStr ''c1'') \<and>
   fst (api_car_detail env_shop ''zz'' req_zz init_state)
     = Inl (HTTPException 404 ''Car not found'') \<and>
   append_calls (snd (api_car_detail env_shop ''zz'' req_zz init_state))
     = [(''users!A:E'', [''2024-01-01T00:00:00'', ''10.0.0.7'', ''curl/8'', ''/api/cars/zz'', ''zz''])] \<and>
   users_rows (snd (api_car_detail env_shop ''zz'' req_zz init_state))
     = [[''2024-01-01T00:00:00'', ''10.0.0.7'', ''curl/8'', ''/api/cars/zz'', ''zz'']]"
proof -
  let ?s1 = "snd (load_cars env_shop (append_user_event env_shop req_zz (Some ''zz'') init_state))"
  have id: "id_at ?s1 0 = Some (PStr ''c1'')"
    by (simp add: load_after_zz id_at_def shop_car_id)
  then have none: "\<forall>a\<in>set [0]. id_at ?s1 a \<noteq> Some (PStr ''zz'')"
    by simp
  have lc: "load_cars env_shop (append_user_event env_shop req_zz (Some ''zz'') init_state)
      = (Inr (DCars [0]), ?s1)"
    by (simp add: load_after_zz)
  have init: "append_calls init_state = []" "users_rows init_state = []"
    by (simp_all add: init_state_def)
  from detail_logs_before_lookup [of env_shop "''zz''" req_zz init_state "[0]" ?s1]
    reachable.start lc none
  have "fst (api_car_detail env_shop ''zz'' req_zz init_state)
     = Inl (HTTPException 404 ''Car not found'') \<and>
   append_calls (snd (api_car_detail env_shop ''zz'' req_zz init_state))
     = [(''users!A:E'', [''2024-01-01T00:00:00'', ''10.0.0.7'', ''curl/8'', ''/api/cars/zz'', ''zz''])] \<and>
   users_rows (snd (api_car_detail env_shop ''zz'' req_zz init_state))
     = [[''2024-01-01T00:00:00'', ''10.0.0.7'', ''curl/8'', ''/api/cars/zz'', ''zz'']]"
    by (simp add: append_shop event_row_zz init users_range_def USERS_SHEET_def
        del: set_simps)
  moreover have "fst (load_cars env_shop (append_user_event env_shop req_zz (Some ''zz'') init_state))
     = Inr (DCars [0])"
    by (simp add: load_after_zz)
  ultimately show ?thesis
    using id reachable.start by (simp add: append_shop)
qed

section \<open>The detail handler\<close>

lemma find_car_first:
  "cars_ok s cars \<Longrightarrow> cars = pre @ a # post \<Longrightarrow>
   \<forall>b\<in>set pre. id_at s b \<noteq> Some (PStr car_id) \<Longrightarrow> id_at s a = Some (PStr car_id) \<Longrightarrow>
   find_car (heap s) car_id cars = Inr (Some a)"
proof (induction pre arbitrary: cars)
  case Nil
  then show ?case
    by (auto simp: id_at_def split: option.splits)
next
  case (Cons c pre)
  from Cons.prems(1,2) obtain d i where d: "heap s c = Some d" "map_of d ''id'' = Some (PStr i)"
    by (auto simp: cars_ok_def dest: is_car_id)
  from Cons.prems(1,2) have ok: "cars_ok s (pre @ a # post)" by (simp add: cars_ok_def)
  from Cons.prems(3) d have ne: "i \<noteq> car_id" by (simp add: id_at_def)
  from Cons.IH [OF ok refl] Cons.prems(3,4)
  have "find_car (heap s) car_id (pre @ a # post) = Inr (Some a)" by simp
  with d ne Cons.prems(2) show ?case by simp
qed

lemma detail_of_car:
  assumes "heap s a = Some d" and "d \<noteq> []"
  shows "detail_of e (Some a) s =
     (case load_photos e (folder_arg (map_of d ''photos_folder_id'')) (snd (alloc d s)) of
        (Inl err, s2) \<Rightarrow> (Inl err, s2)
      | (Inr photos, s2) \<Rightarrow>
          (Inr (next_addr s), s2\<lparr>heap := (heap s2)(next_addr s \<mapsto> detail_entry d photos)\<rparr>))"
proof -
  define s1 where "s1 = snd (alloc d s)"
  define lp where "lp = load_photos e (folder_arg (map_of d ''photos_folder_id'')) s1"
  have a: "alloc d s = (next_addr s, s1)"
    by (simp add: s1_def alloc_def)
  obtain r s2 where lp: "lp = (r, s2)" by force
  have h: "heap s2 = (heap s)(next_addr s \<mapsto> d)"
    using load_photos_fields [of e "folder_arg (map_of d ''photos_folder_id'')" s1 r s2] lp
    by (simp add: lp_def s1_def alloc_fields)
  show ?thesis
  proof (cases r)
    case (Inl err)
    then show ?thesis
      using assms a lp by (simp add: detail_of_def lp_def [symmetric] s1_def [symmetric])
  next
    case (Inr photos)
    let ?car = "next_addr s"
    define d1 where "d1 = AList.update ''photos'' (PStrs (map url photos)) d"
    define s3 where "s3 = mutate ?car (AList.update ''photos'' (PStrs (map url photos))) s2"
    have s3: "s3 = s2\<lparr>heap := (heap s2)(?car \<mapsto> d1)\<rparr>"
      unfolding s3_def d1_def by (rule mutate_at) (simp add: h)
    have h3: "heap s3 ?car = Some d1" by (simp add: s3)
    define s4 where "s4 = mutate ?car (\<lambda>d. AList.update ''cover_image'' (first_url (map_of d ''photos'')) d) s3"
    have s4: "s4 = s3\<lparr>heap := (heap s3)(?car \<mapsto> AList.update ''cover_image'' (cover_of photos) d1)\<rparr>"
      unfolding s4_def using mutate_at [OF h3] first_url_photos [of photos d]
      by (simp add: d1_def)
    have h4: "heap s4 ?car = Some (AList.update ''cover_image'' (cover_of photos) d1)"
      by (simp add: s4)
    have s5: "mutate ?car (AList.delete ''photos_folder_id'') s4
        = s4\<lparr>heap := (heap s4)(?car \<mapsto> detail_entry d photos)\<rparr>"
      unfolding detail_entry_def d1_def [symmetric] by (rule mutate_at [OF h4])
    have "detail_of e (Some a) s = (Inr ?car, mutate ?car (AList.delete ''photos_folder_id'') s4)"
      using assms a lp Inr
      by (simp add: detail_of_def lp_def [symmetric] s1_def [symmetric] s3_def s4_def)
    also have "\<dots> = (Inr ?car, s2\<lparr>heap := (heap s2)(?car \<mapsto> detail_entry d photos)\<rparr>)"
      unfolding s5 by (simp add: s4 s3)
    finally show ?thesis
      using lp Inr by (simp add: lp_def [symmetric] s1_def [symmetric])
  qed
qed

lemma load_photos_error: "fst (load_photos e f s) = Inl err \<Longrightarrow> \<exists>m. err = Upstream m"
  by (auto simp: load_photos_def Let_def split: option.splits if_splits sum.splits)

text \<open>The detail handler when the car at \<open>a\<close> is the first of the list with the id.\<close>

lemma api_car_detail_match:
  assumes "reachable s"
    and "load_cars e (append_user_event e req (Some car_id) s) = (Inr (DCars cars), s1)"
    and "cars = pre @ a # post"
    and "\<forall>b\<in>set pre. id_at s1 b \<noteq> Some (PStr car_id)"
    and "id_at s1 a = Some (PStr car_id)"
  shows "\<exists>d. heap s1 a = Some d \<and> is_car d \<and> a < next_addr s1 \<and>
     api_car_detail e car_id req s =
       (case load_photos e (folder_arg (map_of d ''photos_folder_id'')) (snd (alloc d s1)) of
          (Inl err, s2) \<Rightarrow> (Inl err, s2)
        | (Inr photos, s2) \<Rightarrow>
            (Inr (next_addr s1),
             s2\<lparr>heap := (heap s2)(next_addr s1 \<mapsto> detail_entry d photos)\<rparr>))"
proof -
  have "inv (append_user_event e req (Some car_id) s)"
    using reachable_inv [OF assms(1)] by (simp add: inv_append_user_event)
  from load_cars_typed [OF this assms(2)] have ok: "cars_ok s1 cars" by simp
  from ok assms(3) obtain d where d: "heap s1 a = Some d" "is_car d" "a < next_addr s1"
    by (auto simp: cars_ok_def)
  have f: "find_car (heap s1) car_id cars = Inr (Some a)"
    by (rule find_car_first [OF ok assms(3,4,5)])
  have "api_car_detail e car_id req s = detail_of e (Some a) s1"
    using assms(2) f by (simp add: api_car_detail_def)
  with detail_of_car [OF d(1) is_car_nonempty [OF d(2)], of e] d show ?thesis
    by simp
qed

lemma detail_entry_fields:
  "map_of (detail_entry d photos) ''photos'' = Some (PStrs (map url photos)) \<and>
   map_of (detail_entry d photos) ''cover_image''
     = Some (case map url photos of [] \<Rightarrow> PNone | u # _ \<Rightarrow> PStr u) \<and>
   map_of (detail_entry d photos) ''photos_folder_id'' = None \<and>
   (\<forall>k. k \<notin> {''photos'', ''cover_image'', ''photos_folder_id''} \<longrightarrow>
      map_of (detail_entry d photos) k = map_of d k)"
  by (cases photos) (simp_all add: detail_entry_def delete_conv' update_conv' cover_of_def)

lemma first_match_exists:
  assumes "\<exists>a\<in>set cars. P a"
  shows "\<exists>pre a post. cars = pre @ a # post \<and> (\<forall>b\<in>set pre. \<not> P b) \<and> P a"
  using assms split_list_first_prop [of cars P] by blast

text \<open>
  C5, amended. Let \<^verbatim>\<open>load_cars\<close>, called after the event was logged, return the list
  \<open>cars\<close>. The request fails with 404 exactly when no car of \<open>cars\<close> has the id \<open>car_id\<close>.
  Otherwise let \<open>a\<close> be the first car of the list with that id. When the listing of its
  photo folder raises, the request raises that exception (an upstream failure, not a 404);
  when it returns the photos, the request returns a new dictionary, not one of the list:
  the car \<open>a\<close> (which is left as it was) with \<^verbatim>\<open>photos\<close>, the list of their URLs, with
  \<^verbatim>\<open>cover_image\<close>, the first URL, or \<^verbatim>\<open>None\<close> when there is no photo, without
  \<^verbatim>\<open>photos_folder_id\<close>, and with every other key as the car has it.
\<close>

theorem car_detail_outcome:
  assumes "reachable s"
    and "load_cars e (append_user_event e req (Some car_id) s) = (Inr c, s1)"
  shows "\<exists>cars. c = DCars cars \<and>
     ((fst (api_car_detail e car_id req s) = Inl (HTTPException 404 ''Car not found''))
        = (\<forall>a\<in>set cars. id_at s1 a \<noteq> Some (PStr car_id))) \<and>
     (\<forall>pre a post.
        cars = pre @ a # post \<and> (\<forall>b\<in>set pre. id_at s1 b \<noteq> Some (PStr car_id)) \<and>
        id_at s1 a = Some (PStr car_id) \<longrightarrow>
        (\<exists>d. heap s1 a = Some d \<and>
           (case load_photos e (folder_arg (map_of d ''photos_folder_id'')) (snd (alloc d s1)) of
              (Inl err, s2) \<Rightarrow>
                (\<exists>m. err = Upstream m) \<and> fst (api_car_detail e car_id req s) = Inl err
            | (Inr photos, s2) \<Rightarrow>
                (\<exists>car s' d'. api_car_detail e car_id req s = (Inr car, s') \<and>
                   car \<notin> set cars \<and> heap s' a = Some d \<and> heap s' car = Some d' \<and>
                   map_of d' ''photos'' = Some (PStrs (map url photos)) \<and>
                   map_of d' ''cover_image''
                     = Some (case map url photos of [] \<Rightarrow> PNone | u # _ \<Rightarrow> PStr u) \<and>
                   map_of d' ''photos_folder_id'' = None \<and>
                   (\<forall>k. k \<notin> {''photos'', ''cover_image'', ''photos_folder_id''} \<longrightarrow>
                      map_of d' k = map_of d k)))))"
proof -
  have "inv (append_user_event e req (Some car_id) s)"
    using reachable_inv [OF assms(1)] by (simp add: inv_append_user_event)
  from load_cars_typed [OF this assms(2)] obtain cars where
    c: "c = DCars cars" and ok: "cars_ok s1 cars" by blast
  note lc = assms(2) [unfolded c]
  have found: "\<exists>d. heap s1 a = Some d \<and>
           (case load_photos e (folder_arg (map_of d ''photos_folder_id'')) (snd (alloc d s1)) of
              (Inl err, s2) \<Rightarrow>
                (\<exists>m. err = Upstream m) \<and> fst (api_car_detail e car_id req s) = Inl err
            | (Inr photos, s2) \<Rightarrow>
                (\<exists>car s' d'. api_car_detail e car_id req s = (Inr car, s') \<and>
                   car \<notin> set cars \<and> heap s' a = Some d \<and> heap s' car = Some d' \<and>
                   map_of d' ''photos'' = Some (PStrs (map url photos)) \<and>
                   map_of d' ''cover_image''
                     = Some (case map url photos of [] \<Rightarrow> PNone | u # _ \<Rightarrow> PStr u) \<and>
                   map_of d' ''photos_folder_id'' = None \<and>
                   (\<forall>k. k \<notin> {''photos'', ''cover_image'', ''photos_folder_id''} \<longrightarrow>
                      map_of d' k = map_of d k)))"
    if m: "cars = pre @ a # post" "\<forall>b\<in>set pre. id_at s1 b \<noteq> Some (PStr car_id)"
      "id_at s1 a = Some (PStr car_id)" for pre a post
  proof -
    from api_car_detail_match [OF assms(1) lc m] obtain d where
      d: "heap s1 a = Some d" "a < next_addr s1" and
      api: "api_car_detail e car_id req s =
       (case load_photos e (folder_arg (map_of d ''photos_folder_id'')) (snd (alloc d s1)) of
          (Inl err, s2) \<Rightarrow> (Inl err, s2)
        | (Inr photos, s2) \<Rightarrow>
            (Inr (next_addr s1),
             s2\<lparr>heap := (heap s2)(next_addr s1 \<mapsto> detail_entry d photos)\<rparr>))"
      by blast
    obtain r s2 where lp:
      "load_photos e (folder_arg (map_of d ''photos_folder_id'')) (snd (alloc d s1)) = (r, s2)"
      by force
    have h2: "heap s2 = (heap s1)(next_addr s1 \<mapsto> d)"
      using load_photos_fields [OF lp] by (simp add: alloc_fields)
    have fresh: "next_addr s1 \<notin> set cars"
      using ok by (auto simp: cars_ok_def)
    show ?thesis
    proof (cases r)
      case (Inl err)
      with lp have "fst (load_photos e (folder_arg (map_of d ''photos_folder_id'')) (snd (alloc d s1)))
          = Inl err" by simp
      from load_photos_error [OF this] Inl lp api d show ?thesis by simp
    next
      case (Inr photos)
      with lp api d h2 fresh detail_entry_fields [of d photos] show ?thesis
        by simp
    qed
  qed
  have iff: "(fst (api_car_detail e car_id req s) = Inl (HTTPException 404 ''Car not found''))
        = (\<forall>a\<in>set cars. id_at s1 a \<noteq> Some (PStr car_id))"
  proof
    assume nf: "fst (api_car_detail e car_id req s) = Inl (HTTPException 404 ''Car not found'')"
    show "\<forall>a\<in>set cars. id_at s1 a \<noteq> Some (PStr car_id)"
    proof (rule ccontr)
      assume "\<not> (\<forall>a\<in>set cars. id_at s1 a \<noteq> Some (PStr car_id))"
      then have "\<exists>a\<in>set cars. id_at s1 a = Some (PStr car_id)" by simp
      from first_match_exists [OF this] obtain pre a post where
        m: "cars = pre @ a # post" "\<forall>b\<in>set pre. id_at s1 b \<noteq> Some (PStr car_id)"
          "id_at s1 a = Some (PStr car_id)" by blast
      from api_car_detail_match [OF assms(1) lc m] obtain d where
        api: "api_car_detail e car_id req s =
         (case load_photos e (folder_arg (map_of d ''photos_folder_id'')) (snd (alloc d s1)) of
            (Inl err, s2) \<Rightarrow> (Inl err, s2)
          | (Inr photos, s2) \<Rightarrow>
              (Inr (next_addr s1),
               s2\<lparr>heap := (heap s2)(next_addr s1 \<mapsto> detail_entry d photos)\<rparr>))"
        by blast
      obtain r s2 where lp:
        "load_photos e (folder_arg (map_of d ''photos_folder_id'')) (snd (alloc d s1)) = (r, s2)"
        by force
      show False
      proof (cases r)
        case (Inl err)
        with lp have "fst (load_photos e (folder_arg (map_of d ''photos_folder_id''))
            (snd (alloc d s1))) = Inl err" by simp
        from load_photos_error [OF this] Inl lp api nf show False by auto
      next
        case (Inr photos)
        with lp api nf show False by simp
      qed
    qed
  next
    assume "\<forall>a\<in>set cars. id_at s1 a \<noteq> Some (PStr car_id)"
    from api_car_detail_no_match [OF assms(1) lc this]
    show "fst (api_car_detail e car_id req s) = Inl (HTTPException 404 ''Car not found'')"
      by simp
  qed
  from c iff found show ?thesis by blast
qed

lemma load_after_event:
  "load_cars env_shop (append_user_event env_shop req c init_state) =
     (Inr (DCars [0]),
      init_state\<lparr>ticks := 3,
        append_calls := [(users_range, event_row env_shop req c init_state)],
        users_rows := [event_row env_shop req c init_state],
        sheet_reads := [''cars''], heap := [0 \<mapsto> shop_car], next_addr := 1,
        cache := [''cars'' \<mapsto> \<lparr>data = DCars [0], ts = 100\<rparr>]\<rparr>)"
proof -
  have c: "cache (append_user_event env_shop req c init_state) ''cars'' = None"
    by (simp add: append_user_event_fields init_state_def)
  have l: "append_user_event env_shop req c init_state =
     init_state\<lparr>ticks := 1,
       append_calls := [(users_range, event_row env_shop req c init_state)],
       users_rows := [event_row env_shop req c init_state]\<rparr>"
    by (simp add: append_user_event_eq append_shop) (simp add: init_state_def)
  show ?thesis
    unfolding load_cars_shop_cold [OF c]
    by (simp add: l) (simp add: init_state_def)
qed

lemma shop_car_folder: "folder_arg (map_of shop_car ''photos_folder_id'') = Some ''F1''"
  by (simp add: shop_car_def car_dict_folder folder_arg_def get_or_def shop_row_def py_strip_def
      py_isspace_def)

lemma image_names: "is_image_name ''a.JPG''" "\<not> is_image_name ''notes.txt''"
  by (simp_all add: is_image_name_def endswith_def py_lower_def py_lower_char_def char_of_def
      bit_Suc_0_iff)

lemma load_photos_shop:
  "load_photos env_shop (Some ''F1'') s =
     (Inr [\<lparr>photo_id = ''p1'', url = ''https://lh3.googleusercontent.com/d/p1=w1200''\<rparr>],
      s\<lparr>drive_calls := drive_calls s @ [drive_query ''F1'']\<rparr>)"
  by (simp add: load_photos_def Let_def env_shop_def image_names photo_of_def)

lemma append_user_event_drive [simp]:
  "append_user_event (e\<lparr>drive_files := f\<rparr>) req c s = append_user_event e req c s"
  by (simp add: append_user_event_def append_user_event_try_def)

lemma read_sheet_drive [simp]: "read_sheet (e\<lparr>drive_files := f\<rparr>) n s = read_sheet e n s"
  by (simp add: read_sheet_def)

lemma random_shuffle_drive [simp]:
  "random_shuffle (e\<lparr>drive_files := f\<rparr>) xs s = random_shuffle e xs s"
  by (simp add: random_shuffle_def)

lemma time_time_drive [simp]: "time_time (e\<lparr>drive_files := f\<rparr>) s = time_time e s"
  by (simp add: time_time_def)

lemma load_cars_miss_drive [simp]: "load_cars_miss (e\<lparr>drive_files := f\<rparr>) s = load_cars_miss e s"
  by (simp add: load_cars_miss_def cong: sum.case_cong prod.case_cong)

lemma load_cars_drive [simp]: "load_cars (e\<lparr>drive_files := f\<rparr>) s = load_cars e s"
  by (simp add: load_cars_def cong: option.case_cong prod.case_cong if_cong)

lemma load_photos_nodrive:
  "load_photos env_nodrive (Some ''F1'') s =
     (Inl (Upstream ''down''), s\<lparr>drive_calls := drive_calls s @ [drive_query ''F1'']\<rparr>)"
  by (simp add: load_photos_def Let_def env_nodrive_def)

lemma load_after_event_nodrive:
  "load_cars env_nodrive (append_user_event env_nodrive req c init_state) =
     load_cars env_shop (append_user_event env_shop req c init_state)"
  by (simp add: env_nodrive_def)

lemma id_after_event:
  "id_at (snd (load_cars env_shop (append_user_event env_shop req c init_state))) 0
     = Some (PStr ''c1'')"
  by (simp add: load_after_event id_at_def shop_car_id)

theorem car_detail_outcome_counterexample:
  "fst (load_cars env_nodrive (append_user_event env_nodrive req_c1 (Some ''c1'') init_state))
     = Inr (DCars [0]) \<and>
   id_at (snd (load_cars env_nodrive (append_user_event env_nodrive req_c1 (Some ''c1'') init_state))) 0
     = Some (PStr ''c1'') \<and>
   fst (api_car_detail env_nodrive ''c1'' req_c1 init_state) = Inl (Upstream ''down'')"
proof -
  let ?s1 = "snd (load_cars env_nodrive (append_user_event env_nodrive req_c1 (Some ''c1'') init_state))"
  have lc: "load_cars env_nodrive (append_user_event env_nodrive req_c1 (Some ''c1'') init_state)
      = (Inr (DCars [0]), ?s1)"
    by (simp add: load_after_event_nodrive load_after_event)
  have id: "id_at ?s1 0 = Some (PStr ''c1'')"
    by (simp add: load_after_event_nodrive id_after_event)
  have h: "heap ?s1 0 = Some shop_car"
    by (simp add: load_after_event_nodrive load_after_event)
  from api_car_detail_match [OF reachable.start lc, of "[]" 0 "[]"] id h
  have "api_car_detail env_nodrive ''c1'' req_c1 init_state =
       (case load_photos env_nodrive (folder_arg (map_of shop_car ''photos_folder_id''))
           (snd (alloc shop_car ?s1)) of
          (Inl err, s2) \<Rightarrow> (Inl err, s2)
        | (Inr photos, s2) \<Rightarrow>
            (Inr (next_addr ?s1),
             s2\<lparr>heap := (heap s2)(next_addr ?s1 \<mapsto> detail_entry shop_car photos)\<rparr>))"
    by simp
  then have "fst (api_car_detail env_nodrive ''c1'' req_c1 init_state) = Inl (Upstream ''down'')"
    by (simp add: shop_car_folder load_photos_nodrive)
  moreover have "fst (load_cars env_nodrive
      (append_user_event env_nodrive req_c1 (Some ''c1'') init_state)) = Inr (DCars [0])"
    by (simp add: load_after_event_nodrive load_after_event)
  ultimately show ?thesis using id by simp
qed

theorem car_detail_outcome_witness:
  "reachable init_state \<and>
   fst (load_cars env_shop (append_user_event env_shop req_c1 (Some ''c1'') init_state))
     = Inr (DCars [0]) \<and>
   id_at (snd (load_cars env_shop (append_user_event env_shop req_c1 (Some ''c1'') init_state))) 0
     = Some (PStr ''c1'') \<and>
   fst (api_car_detail env_shop ''c1'' req_c1 init_state)
     \<noteq> Inl (HTTPException 404 ''Car not found'') \<and>
   (\<exists>car d'. fst (api_car_detail env_shop ''c1'' req_c1 init_state) = Inr car \<and> car \<noteq> 0 \<and>
      heap (snd (api_car_detail env_shop ''c1'' req_c1 init_state)) car = Some d' \<and>
      heap (snd (api_car_detail env_shop ''c1'' req_c1 init_state)) 0 = Some shop_car \<and>
      map_of d' ''photos'' = Some (PStrs [''https://lh3.googleusercontent.com/d/p1=w1200'']) \<and>
      map_of d' ''cover_image'' = Some (PStr ''https://lh3.googleusercontent.com/d/p1=w1200'') \<and>
      map_of d' ''photos_folder_id'' = None \<and>
      map_of d' ''id'' = Some (PStr ''c1''))"
proof -
  let ?s1 = "snd (load_cars env_shop (append_user_event env_shop req_c1 (Some ''c1'') init_state))"
  have lc: "load_cars env_shop (append_user_event env_shop req_c1 (Some ''c1'') init_state)
      = (Inr (DCars [0]), ?s1)"
    by (simp add: load_after_event)
  have id: "id_at ?s1 0 = Some (PStr ''c1'')"
    by (rule id_after_event)
  have h: "heap ?s1 0 = Some shop_car"
    by (simp add: load_after_event)
  have lp: "load_photos env_shop (folder_arg (map_of shop_car ''photos_folder_id''))
      (snd (alloc shop_car ?s1)) =
     (Inr [\<lparr>photo_id = ''p1'', url = ''https://lh3.googleusercontent.com/d/p1=w1200''\<rparr>],
      (snd (alloc shop_car ?s1))\<lparr>drive_calls := drive_calls (snd (alloc shop_car ?s1))
         @ [drive_query ''F1'']\<rparr>)"
    by (simp add: shop_car_folder load_photos_shop)
  from car_detail_outcome [OF reachable.start lc] obtain cars where
    all: "DCars [0] = DCars cars \<and>
     ((fst (api_car_detail env_shop ''c1'' req_c1 init_state)
          = Inl (HTTPException 404 ''Car not found''))
        = (\<forall>a\<in>set cars. id_at ?s1 a \<noteq> Some (PStr ''c1''))) \<and>
     (\<forall>pre a post. cars = pre @ a # post \<and>
        (\<forall>b\<in>set pre. id_at ?s1 b \<noteq> Some (PStr ''c1'')) \<and> id_at ?s1 a = Some (PStr ''c1'') \<longrightarrow>
        (\<exists>d. heap ?s1 a = Some d \<and>
           (case load_photos env_shop (folder_arg (map_of d ''photos_folder_id''))
                  (snd (alloc d ?s1)) of
              (Inl err, s2) \<Rightarrow>
                (\<exists>m. err = Upstream m) \<and>
                fst (api_car_detail env_shop ''c1'' req_c1 init_state) = Inl err
            | (Inr photos, s2) \<Rightarrow>
                (\<exists>car s' d'. api_car_detail env_shop ''c1'' req_c1 init_state = (Inr car, s') \<and>
                   car \<notin> set cars \<and> heap s' a = Some d \<and> heap s' car = Some d' \<and>
                   map_of d' ''photos'' = Some (PStrs (map url photos)) \<and>
                   map_of d' ''cover_image''
                     = Some (case map url photos of [] \<Rightarrow> PNone | u # _ \<Rightarrow> PStr u) \<and>
                   map_of d' ''photos_folder_id'' = None \<and>
                   (\<forall>k. k \<notin> {''photos'', ''cover_image'', ''photos_folder_id''} \<longrightarrow>
                      map_of d' k = map_of d k)))))"
    by (rule exE)
  from all have cars: "cars = [0]" by simp
  note iff = all [THEN conjunct2, THEN conjunct1]
  note found = all [THEN conjunct2, THEN conjunct2, rule_format, of "[]" 0 "[]"]
  from iff id cars have n404: "fst (api_car_detail env_shop ''c1'' req_c1 init_state)
     \<noteq> Inl (HTTPException 404 ''Car not found'')"
    by simp
  from found cars id have "\<exists>d. heap ?s1 0 = Some d \<and>
           (case load_photos env_shop (folder_arg (map_of d ''photos_folder_id''))
                  (snd (alloc d ?s1)) of
              (Inl err, s2) \<Rightarrow>
                (\<exists>m. err = Upstream m) \<and>
                fst (api_car_detail env_shop ''c1'' req_c1 init_state) = Inl err
            | (Inr photos, s2) \<Rightarrow>
                (\<exists>car s' d'. api_car_detail env_shop ''c1'' req_c1 init_state = (Inr car, s') \<and>
                   car \<notin> set cars \<and> heap s' 0 = Some d \<and> heap s' car = Some d' \<and>
                   map_of d' ''photos'' = Some (PStrs (map url photos)) \<and>
                   map_of d' ''cover_image''
                     = Some (case map url photos of [] \<Rightarrow> PNone | u # _ \<Rightarrow> PStr u) \<and>
                   map_of d' ''photos_folder_id'' = None \<and>
                   (\<forall>k. k \<notin> {''photos'', ''cover_image'', ''photos_folder_id''} \<longrightarrow>
                      map_of d' k = map_of d k)))"
    by simp
  with h lp cars obtain car s' d' where
    r: "api_car_detail env_shop ''c1'' req_c1 init_state = (Inr car, s')"
      "car \<noteq> 0" "heap s' 0 = Some shop_car" "heap s' car = Some d'"
      "map_of d' ''photos'' = Some (PStrs [''https://lh3.googleusercontent.com/d/p1=w1200''])"
      "map_of d' ''cover_image'' = Some (PStr ''https://lh3.googleusercontent.com/d/p1=w1200'')"
      "map_of d' ''photos_folder_id'' = None"
      "\<forall>k. k \<notin> {''photos'', ''cover_image'', ''photos_folder_id''} \<longrightarrow>
          map_of d' k = map_of shop_car k"
    by auto
  from r(8) have "map_of d' ''id'' = Some (PStr ''c1'')"
    by (simp add: shop_car_id)
  moreover have "fst (load_cars env_shop
      (append_user_event env_shop req_c1 (Some ''c1'') init_state)) = Inr (DCars [0])"
    by (simp add: load_after_event)
  ultimately show ?thesis
    using r n404 id reachable.start by simp
qed

section \<open>What the responses and the cache hold\<close>

lemma append_user_event_extends: "extends s (append_user_event e req c s)"
  by (simp add: extends_def append_user_event_fields)

lemma api_cars_frame: "extends s (snd (api_cars e req s))"
proof -
  define s0 where "s0 = append_user_event e req None s"
  have e0: "extends s s0" unfolding s0_def by (rule append_user_event_extends)
  obtain r s1 where lc: "load_cars e s0 = (r, s1)" by force
  from load_cars_result [OF lc] have e1: "extends s0 s1" by simp
  show ?thesis
  proof (cases r)
    case (Inl err)
    with lc e0 e1 show ?thesis
      by (auto simp: api_cars_def s0_def [symmetric] intro: extends_trans)
  next
    case (Inr c)
    show ?thesis
    proof (cases c)
      case (DProfile p)
      with Inr lc e0 e1 show ?thesis
        by (auto simp: api_cars_def s0_def [symmetric] intro: extends_trans)
    next
      case (DCars cars)
      obtain r2 s2 where es: "enrich_cars e cars s1 = (r2, s2)" by force
      from enrich_cars_result [OF es] have "extends s1 s2" by simp
      with e0 e1 have "extends s s2" by (blast intro: extends_trans)
      with DCars Inr lc es show ?thesis by (simp add: api_cars_def s0_def [symmetric])
    qed
  qed
qed

lemma api_car_detail_frame: "extends s (snd (api_car_detail e car_id req s))"
proof -
  define s0 where "s0 = append_user_event e req (Some car_id) s"
  have e0: "extends s s0" unfolding s0_def by (rule append_user_event_extends)
  obtain r s1 where lc: "load_cars e s0 = (r, s1)" by force
  from load_cars_result [OF lc] have e1: "extends s0 s1" by simp
  from e0 e1 have e01: "extends s s1" by (rule extends_trans)
  show ?thesis
  proof (cases r)
    case (Inl err)
    with lc e01 show ?thesis by (simp add: api_car_detail_def s0_def [symmetric])
  next
    case (Inr c)
    show ?thesis
    proof (cases c)
      case (DProfile p)
      with Inr lc e01 show ?thesis by (simp add: api_car_detail_def s0_def [symmetric])
    next
      case (DCars cars)
      show ?thesis
      proof (cases "find_car (heap s1) car_id cars")
        case (Inl err)
        with DCars Inr lc e01 show ?thesis
          by (simp add: api_car_detail_def s0_def [symmetric])
      next
        case found: (Inr found)
        obtain r2 s2 where d: "detail_of e found s1 = (r2, s2)" by force
        from detail_of_result [OF d] have "extends s1 s2" by simp
        with e01 have "extends s s2" by (rule extends_trans)
        with DCars Inr lc found d show ?thesis
          by (simp add: api_car_detail_def s0_def [symmetric])
      qed
    qed
  qed
qed

lemma list_entry_folder: "map_of (list_entry d photos) ''photos_folder_id'' = None"
  by (simp add: list_entry_def delete_conv')

lemma api_cars_body:
  assumes "reachable s" and "api_cars e req s = (Inr cars, s')"
  shows "\<forall>a\<in>set cars. \<exists>d. heap s' a = Some d \<and> map_of d ''photos_folder_id'' = None"
proof -
  define s0 where "s0 = append_user_event e req None s"
  have i0: "inv s0"
    using reachable_inv [OF assms(1)] by (simp add: s0_def inv_append_user_event)
  obtain r s1 where lc: "load_cars e s0 = (r, s1)" by force
  from assms(2) lc obtain cs where r: "r = Inr (DCars cs)" and es: "enrich_cars e cs s1 = (Inr cars, s')"
    by (auto simp: api_cars_def s0_def [symmetric] split: sum.splits cached.splits)
  from load_cars_typed [OF i0 lc [unfolded r]] have ok: "cars_ok s1 cs" by simp
  from enrich_cars_body [OF ok es]
  have "\<forall>a\<in>set cars. \<exists>d photos. heap s' a = Some (list_entry d photos)"
    by (fastforce simp: list_all2_conv_all_nth in_set_conv_nth)
  then show ?thesis
    using list_entry_folder by fastforce
qed

lemma api_car_detail_body:
  assumes "api_car_detail e car_id req s = (Inr car, s')"
  shows "\<exists>d. heap s' car = Some d \<and> map_of d ''photos_folder_id'' = None"
proof -
  define s0 where "s0 = append_user_event e req (Some car_id) s"
  obtain r s1 where lc: "load_cars e s0 = (r, s1)" by force
  from assms lc obtain cs found where "detail_of e found s1 = (Inr car, s')"
    by (auto simp: api_car_detail_def s0_def [symmetric] split: sum.splits cached.splits)
  from detail_of_result [OF this] obtain d photos where
    "heap s' car = Some (detail_entry d photos)" by auto
  then show ?thesis
    using detail_entry_fields [of d photos] by simp
qed

lemma car_dict_keys:
  "map_of (car_dict i r) ''cover_image'' = None" "map_of (car_dict i r) ''photos'' = None"
  by (simp_all add: car_dict_def)

lemma is_car_keys:
  "is_car d \<Longrightarrow>
   (\<exists>f. map_of d ''photos_folder_id'' = Some (PStr f)) \<and> map_of d ''cover_image'' = None \<and>
   map_of d ''photos'' = None"
  by (auto simp: is_car_def car_dict_folder car_dict_keys)

lemma dom_update_key: "dom (map_of (AList.update k v al)) = insert k (dom (map_of al))"
  by (simp add: update_conv')

lemma fold_update_dom:
  "dom (map_of (fold (\<lambda>(i, h) item. AList.update h (g i) item) xs acc))
     = snd ` set xs \<union> dom (map_of acc)"
proof (induction xs arbitrary: acc)
  case Nil
  then show ?case by simp
next
  case (Cons x xs)
  obtain i h where x: "x = (i, h)" by force
  show ?case
    by (simp add: x Cons.IH dom_update_key)
qed

lemma snd_enumerate: "snd ` set (enumerate n hs) = set hs"
  by (metis map_snd_enumerate set_map)

lemma row_item_dom: "dom (map_of (row_item hs r)) = set hs"
  by (simp add: row_item_def fold_update_dom snd_enumerate)

lemma dom_wrapped: "dom (map_of (map (\<lambda>(k, v). (k, PStr v)) r)) = dom (map_of r)"
  by (simp add: dom_map_of_conv_image_fst image_image case_prod_beta)

lemma enrich_car_at:
  assumes "heap s c = Some d"
  shows "enrich_car e c s =
     (case load_photos e (folder_arg (map_of d ''photos_folder_id'')) (snd (alloc d s)) of
        (Inl err, s2) \<Rightarrow> (Inl err, s2)
      | (Inr photos, s2) \<Rightarrow>
          (Inr (next_addr s), s2\<lparr>heap := (heap s2)(next_addr s \<mapsto> list_entry d photos)\<rparr>))"
proof -
  define s1 where "s1 = snd (alloc d s)"
  define lp where "lp = load_photos e (folder_arg (map_of d ''photos_folder_id'')) s1"
  have a: "alloc d s = (next_addr s, s1)"
    by (simp add: s1_def alloc_def)
  obtain r s2 where lp: "lp = (r, s2)" by force
  have h: "heap s2 = (heap s)(next_addr s \<mapsto> d)"
    using load_photos_fields [of e "folder_arg (map_of d ''photos_folder_id'')" s1 r s2] lp
    by (simp add: lp_def s1_def alloc_fields)
  show ?thesis
  proof (cases r)
    case (Inl err)
    then show ?thesis
      using assms a lp by (simp add: enrich_car_def lp_def [symmetric] s1_def [symmetric])
  next
    case (Inr photos)
    let ?car = "next_addr s"
    define s3 where "s3 = mutate ?car (AList.update ''cover_image'' (cover_of photos)) s2"
    have s3: "s3 = s2\<lparr>heap := (heap s2)(?car \<mapsto> AList.update ''cover_image'' (cover_of photos) d)\<rparr>"
      unfolding s3_def by (rule mutate_at) (simp add: h)
    have h3: "heap s3 ?car = Some (AList.update ''cover_image'' (cover_of photos) d)"
      by (simp add: s3)
    have s4: "mutate ?car (AList.delete ''photos_folder_id'') s3
        = s3\<lparr>heap := (heap s3)(?car \<mapsto> list_entry d photos)\<rparr>"
      unfolding list_entry_def by (rule mutate_at [OF h3])
    have "enrich_car e c s = (Inr ?car, mutate ?car (AList.delete ''photos_folder_id'') s3)"
      using assms a lp Inr
      by (simp add: enrich_car_def lp_def [symmetric] s1_def [symmetric] s3_def)
    also have "\<dots> = (Inr ?car, s2\<lparr>heap := (heap s2)(?car \<mapsto> list_entry d photos)\<rparr>)"
      unfolding s4 by (simp add: s3)
    finally show ?thesis
      using lp Inr by (simp add: lp_def [symmetric] s1_def [symmetric])
  qed
qed

lemma load_photos_shop_any:
  "f \<noteq> [] \<Longrightarrow>
   load_photos env_shop (Some f) s =
     (Inr [\<lparr>photo_id = ''p1'', url = ''https://lh3.googleusercontent.com/d/p1=w1200''\<rparr>],
      s\<lparr>drive_calls := drive_calls s @ [drive_query f]\<rparr>)"
  by (simp add: load_photos_def Let_def env_shop_def image_names photo_of_def)

lemma enrich_shop_car:
  "heap s c = Some shop_car \<Longrightarrow>
   enrich_car env_shop c s =
     (Inr (next_addr s),
      s\<lparr>heap := (heap s)(next_addr s \<mapsto> list_entry shop_car
            [\<lparr>photo_id = ''p1'', url = ''https://lh3.googleusercontent.com/d/p1=w1200''\<rparr>]),
        next_addr := Suc (next_addr s),
        drive_calls := drive_calls s @ [drive_query ''F1'']\<rparr>)"
  by (simp add: enrich_car_at shop_car_folder load_photos_shop alloc_def)

lemma api_cars_shop_init:
  "fst (api_cars env_shop req init_state) = Inr [1] \<and>
   heap (snd (api_cars env_shop req init_state)) =
     [0 \<mapsto> shop_car, 1 \<mapsto> list_entry shop_car
        [\<lparr>photo_id = ''p1'', url = ''https://lh3.googleusercontent.com/d/p1=w1200''\<rparr>]] \<and>
   cache (snd (api_cars env_shop req init_state)) = [''cars'' \<mapsto> \<lparr>data = DCars [0], ts = 100\<rparr>]"
proof -
  let ?s1 = "snd (load_cars env_shop (append_user_event env_shop req None init_state))"
  have h: "heap ?s1 0 = Some shop_car" by (simp add: load_after_event)
  have "api_cars env_shop req init_state = enrich_cars env_shop [0] ?s1"
    by (simp add: api_cars_def load_after_event)
  then show ?thesis
    by (simp add: enrich_shop_car [OF h]) (simp add: load_after_event)
qed

lemma row_item_profile:
  "row_item [''name'', ''photos_folder_id''] [''Shop'', ''X'']
     = [(''name'', ''Shop''), (''photos_folder_id'', ''X'')]"
  by (simp add: row_item_def enumerate_eq_zip upt_rec)

lemma sheet_profile_shop:
  "sheet_values env_shop ''profile'' = Inr (Some [[''name'', ''photos_folder_id''], [''Shop'', ''X'']])"
  by (simp add: env_shop_def)

lemma hero_shop:
  "load_hero_image env_shop s =
     (Some ''https://lh3.googleusercontent.com/d/p1=w1200'',
      s\<lparr>drive_calls := drive_calls s @ [drive_query HERO_FOLDER_ID]\<rparr>)"
proof -
  have "HERO_FOLDER_ID \<noteq> []" by (simp add: HERO_FOLDER_ID_def)
  from load_photos_shop_any [OF this] show ?thesis
    by (simp add: load_hero_image_def)
qed

lemma api_profile_shop_init:
  "fst (api_profile env_shop init_state) =
     Inr (DProfile [(''name'', PStr ''Shop''), (''photos_folder_id'', PStr ''X''),
       (''hero_image'', PStr ''https://lh3.googleusercontent.com/d/p1=w1200'')])"
  by (simp add: api_profile_def load_profile_def load_profile_miss_def read_sheet_def
      sheet_profile_shop row_item_profile hero_shop time_time_def get_cached_def Let_def
      init_state_def)

lemma cached_before_unchanged:
  assumes "inv s" and "extends s s'" and "cache s ''cars'' = Some ent" and "data ent = DCars cs"
  shows "\<forall>a\<in>set cs. heap s' a = heap s a"
proof -
  from assms(1,3,4) have "cars_ok s cs" by (auto simp: inv_def)
  with assms(2) show ?thesis by (auto simp: cars_ok_def extends_def)
qed

lemma cached_after_shape:
  assumes "inv s'" and "cache s' ''cars'' = Some ent"
  shows "\<exists>cs. data ent = DCars cs \<and>
     (\<forall>a\<in>set cs. \<exists>d f. heap s' a = Some d \<and> is_car d \<and>
        map_of d ''photos_folder_id'' = Some (PStr f) \<and>
        map_of d ''cover_image'' = None \<and> map_of d ''photos'' = None)"
proof -
  from assms obtain cs where cs: "data ent = DCars cs" "cars_ok s' cs"
    by (auto simp: inv_def)
  have "\<forall>a\<in>set cs. \<exists>d f. heap s' a = Some d \<and> is_car d \<and>
        map_of d ''photos_folder_id'' = Some (PStr f) \<and>
        map_of d ''cover_image'' = None \<and> map_of d ''photos'' = None"
  proof
    fix a assume "a \<in> set cs"
    with cs(2) obtain d where d: "heap s' a = Some d" "is_car d" by (auto simp: cars_ok_def)
    from is_car_keys [OF d(2)] d
    show "\<exists>d f. heap s' a = Some d \<and> is_car d \<and>
        map_of d ''photos_folder_id'' = Some (PStr f) \<and>
        map_of d ''cover_image'' = None \<and> map_of d ''photos'' = None"
      by blast
  qed
  with cs(1) show ?thesis by blast
qed

lemma load_profile_hit:
  assumes "cache_hit (cache s) (clock e (ticks s)) ''profile'' CACHE_TTL_META"
  shows "\<exists>ent. cache s ''profile'' = Some ent \<and>
     load_profile e s = (Inr (data ent), s\<lparr>ticks := Suc (ticks s)\<rparr>)"
  using assms
  by (auto simp: cache_hit_def load_profile_def time_time_def get_cached_def
      split: option.splits if_splits)

lemma load_profile_no_hit:
  assumes "\<not> cache_hit (cache s) (clock e (ticks s)) ''profile'' CACHE_TTL_META"
  shows "load_profile e s = load_profile_miss e (s\<lparr>ticks := Suc (ticks s)\<rparr>)"
  using assms
  by (auto simp: cache_hit_def load_profile_def time_time_def split: option.splits)

lemma load_profile_miss_built:
  assumes "fst (read_sheet e ''profile'' s) = Inr rows"
  shows "\<exists>h now.
     fst (load_profile_miss e s) =
       Inr (DProfile (AList.update ''hero_image'' h
         (case rows of [] \<Rightarrow> [] | r # _ \<Rightarrow> map (\<lambda>(k, v). (k, PStr v)) r))) \<and>
     cache (snd (load_profile_miss e s)) ''profile'' =
       Some \<lparr>data = DProfile (AList.update ''hero_image'' h
         (case rows of [] \<Rightarrow> [] | r # _ \<Rightarrow> map (\<lambda>(k, v). (k, PStr v)) r)), ts = now\<rparr>"
proof -
  obtain s1 where rs: "read_sheet e ''profile'' s = (Inr rows, s1)"
    using assms by (cases "read_sheet e ''profile'' s") simp
  obtain hero s2 where lh: "load_hero_image e s1 = (hero, s2)" by force
  show ?thesis
    by (intro exI [of _ "case hero of None \<Rightarrow> PNone | Some u \<Rightarrow> PStr u"]
        exI [of _ "clock e (ticks s2)"])
       (simp add: load_profile_miss_def rs lh time_time_def Let_def set_cache_def)
qed

lemma read_sheet_rows:
  "sheet_values e n = Inr (Some (hs # r # rest)) \<Longrightarrow>
   fst (read_sheet e n s) = Inr (row_item hs r # map (row_item hs) rest)"
  by (simp add: read_sheet_def Let_def)

lemma read_sheet_no_rows:
  "sheet_values e n = Inr None \<or> sheet_values e n = Inr (Some []) \<or>
   (\<exists>hs. sheet_values e n = Inr (Some [hs])) \<Longrightarrow>
   fst (read_sheet e n s) = Inr []"
  by (auto simp: read_sheet_def Let_def)

lemma profile_keys:
  "dom (map_of (AList.update ''hero_image'' h (map (\<lambda>(k, v). (k, PStr v)) (row_item hs r))))
     = set hs \<union> {''hero_image''}"
  by (simp add: dom_update_key dom_wrapped row_item_dom)

lemma profile_folder_key:
  "(map_of (AList.update ''hero_image'' h (map (\<lambda>(k, v). (k, PStr v)) (row_item hs r)))
      ''photos_folder_id'' \<noteq> None) = (''photos_folder_id'' \<in> set hs)"
proof -
  let ?p = "AList.update ''hero_image'' h (map (\<lambda>(k, v). (k, PStr v)) (row_item hs r))"
  have "(map_of ?p ''photos_folder_id'' \<noteq> None) = (''photos_folder_id'' \<in> dom (map_of ?p))"
    by (simp add: dom_def)
  then show ?thesis unfolding profile_keys by simp
qed

lemma api_profile_hit:
  assumes "inv s" and "cache_hit (cache s) (clock e (ticks s)) ''profile'' CACHE_TTL_META"
  shows "\<exists>ent p. cache s ''profile'' = Some ent \<and> data ent = DProfile p \<and>
     api_profile e s = (Inr (DProfile p), s\<lparr>ticks := Suc (ticks s)\<rparr>)"
proof -
  from load_profile_hit [OF assms(2)] obtain ent where
    ent: "cache s ''profile'' = Some ent"
      "load_profile e s = (Inr (data ent), s\<lparr>ticks := Suc (ticks s)\<rparr>)"
    by blast
  from assms(1) ent(1) obtain p where "data ent = DProfile p"
    by (auto simp: inv_def)
  with ent show ?thesis by (simp add: api_profile_def)
qed

lemma api_profile_miss:
  assumes "\<not> cache_hit (cache s) (clock e (ticks s)) ''profile'' CACHE_TTL_META"
  shows
   "(\<forall>m. sheet_values e ''profile'' = Inl m \<longrightarrow> fst (api_profile e s) = Inl (Upstream m)) \<and>
    (\<forall>hs r rest. sheet_values e ''profile'' = Inr (Some (hs # r # rest)) \<longrightarrow>
       (\<exists>h now p.
          p = AList.update ''hero_image'' h (map (\<lambda>(k, v). (k, PStr v)) (row_item hs r)) \<and>
          fst (api_profile e s) = Inr (DProfile p) \<and>
          cache (snd (api_profile e s)) ''profile'' = Some \<lparr>data = DProfile p, ts = now\<rparr> \<and>
          dom (map_of p) = set hs \<union> {''hero_image''} \<and>
          (map_of p ''photos_folder_id'' \<noteq> None) = (''photos_folder_id'' \<in> set hs))) \<and>
    (sheet_values e ''profile'' = Inr None \<or> sheet_values e ''profile'' = Inr (Some []) \<or>
     (\<exists>hs. sheet_values e ''profile'' = Inr (Some [hs])) \<longrightarrow>
       (\<exists>h now.
          fst (api_profile e s) = Inr (DProfile [(''hero_image'', h)]) \<and>
          cache (snd (api_profile e s)) ''profile''
            = Some \<lparr>data = DProfile [(''hero_image'', h)], ts = now\<rparr>))"
proof (intro conjI allI impI)
  fix m
  assume "sheet_values e ''profile'' = Inl m"
  then show "fst (api_profile e s) = Inl (Upstream m)"
    by (simp add: api_profile_def load_profile_no_hit [OF assms] load_profile_miss_fails)
next
  fix hs r rest
  assume "sheet_values e ''profile'' = Inr (Some (hs # r # rest))"
  from load_profile_miss_built [OF read_sheet_rows [OF this, of "s\<lparr>ticks := Suc (ticks s)\<rparr>"]]
  obtain h now where
    b: "fst (api_profile e s) =
          Inr (DProfile (AList.update ''hero_image'' h (map (\<lambda>(k, v). (k, PStr v)) (row_item hs r))))"
       "cache (snd (api_profile e s)) ''profile'' =
          Some \<lparr>data = DProfile (AList.update ''hero_image'' h
            (map (\<lambda>(k, v). (k, PStr v)) (row_item hs r))), ts = now\<rparr>"
    unfolding api_profile_def load_profile_no_hit [OF assms] by auto
  show "\<exists>h now p.
          p = AList.update ''hero_image'' h (map (\<lambda>(k, v). (k, PStr v)) (row_item hs r)) \<and>
          fst (api_profile e s) = Inr (DProfile p) \<and>
          cache (snd (api_profile e s)) ''profile'' = Some \<lparr>data = DProfile p, ts = now\<rparr> \<and>
          dom (map_of p) = set hs \<union> {''hero_image''} \<and>
          (map_of p ''photos_folder_id'' \<noteq> None) = (''photos_folder_id'' \<in> set hs)"
    using b profile_keys [of h hs r] profile_folder_key [of h hs r]
    by (intro exI [of _ h] exI [of _ now]) simp
next
  assume "sheet_values e ''profile'' = Inr None \<or> sheet_values e ''profile'' = Inr (Some []) \<or>
     (\<exists>hs. sheet_values e ''profile'' = Inr (Some [hs]))"
  from load_profile_miss_built [OF read_sheet_no_rows [OF this, of "s\<lparr>ticks := Suc (ticks s)\<rparr>"]]
  show "\<exists>h now.
          fst (api_profile e s) = Inr (DProfile [(''hero_image'', h)]) \<and>
          cache (snd (api_profile e s)) ''profile''
            = Some \<lparr>data = DProfile [(''hero_image'', h)], ts = now\<rparr>"
    unfolding api_profile_def load_profile_no_hit [OF assms] by simp
qed

lemma warm_no_profile:
  "\<not> cache_hit (cache warm_state) (clock env_shop (ticks warm_state)) ''profile'' CACHE_TTL_META"
  by (simp add: cache_hit_def get_cached_def warm_state_def api_cars_shop_init)

lemma init_no_profile:
  "\<not> cache_hit (cache init_state) (clock e (ticks init_state)) ''profile'' CACHE_TTL_META"
  by (simp add: cache_hit_def get_cached_def init_state_def)

lemma sheet_profile_header:
  "sheet_values env_header ''profile'' = Inr (Some [[''name'', ''photos_folder_id'']])"
  by (simp add: env_header_def)

lemma api_profile_bare_init:
  "api_profile env_bare init_state =
     (Inr (DProfile [(''hero_image'', PNone)]),
      init_state\<lparr>ticks := 2, sheet_reads := [''profile''],
        drive_calls := [drive_query HERO_FOLDER_ID],
        cache := [''profile'' \<mapsto> \<lparr>data = DProfile [(''hero_image'', PNone)], ts = 100\<rparr>]\<rparr>)"
proof -
  have h: "HERO_FOLDER_ID \<noteq> []" by (simp add: HERO_FOLDER_ID_def)
  show ?thesis
    by (simp add: api_profile_def load_profile_def load_profile_miss_def read_sheet_def
        load_hero_image_def load_photos_def h time_time_def get_cached_def set_cache_def
        Let_def init_state_def env_bare_def)
qed

lemma profiled_reachable: "reachable profiled_state"
  unfolding profiled_state_def by (rule reachable.profile [OF reachable.start])

lemma profiled_cache:
  "cache profiled_state ''profile'' = Some \<lparr>data = DProfile [(''hero_image'', PNone)], ts = 100\<rparr>"
  by (simp add: profiled_state_def api_profile_bare_init)

lemma profiled_hit:
  "cache_hit (cache profiled_state) (clock env_shop (ticks profiled_state)) ''profile'' CACHE_TTL_META"
  by (simp add: cache_hit_def get_cached_def profiled_cache clock_shop CACHE_TTL_META_def)

text \<open>
  C8, amended. In every state the process can reach: no dictionary that \<^verbatim>\<open>GET /api/cars\<close>
  or \<^verbatim>\<open>GET /api/cars/{car_id}\<close> returns has the key \<^verbatim>\<open>photos_folder_id\<close>. After either
  call, every car the cache held before it is the dictionary it was, and every car the
  cache holds is as \<^verbatim>\<open>load_cars\<close> built it: with its \<^verbatim>\<open>photos_folder_id\<close>, without
  \<^verbatim>\<open>cover_image\<close> and \<^verbatim>\<open>photos\<close>.

  \<^verbatim>\<open>GET /api/profile\<close> strips nothing. When the cache serves the profile (it holds a
  non-empty one that has not expired), the response is that cached dictionary and nothing
  is read, whatever the sheet holds now. Otherwise the sheet is read. A failed read fails
  the request. From a sheet with a header row and a data row, the response is the first
  data row under the sheet's header names with \<^verbatim>\<open>hero_image\<close> set, so it has the key
  \<^verbatim>\<open>photos_folder_id\<close> exactly when the sheet has a column of that name. From a sheet that
  is empty or holds the header row only, the response is \<^verbatim>\<open>hero_image\<close> alone. What was
  built is what the cache then holds under \<^verbatim>\<open>"profile"\<close>.
\<close>

theorem responses_and_cached_cars:
  assumes "reachable s"
  shows
   "(\<forall>cars s'. api_cars e req s = (Inr cars, s') \<longrightarrow>
       (\<forall>a\<in>set cars. \<exists>d. heap s' a = Some d \<and> map_of d ''photos_folder_id'' = None)) \<and>
    (\<forall>car s'. api_car_detail e car_id req' s = (Inr car, s') \<longrightarrow>
       (\<exists>d. heap s' car = Some d \<and> map_of d ''photos_folder_id'' = None)) \<and>
    (\<forall>s'. s' = snd (api_cars e req s) \<or> s' = snd (api_car_detail e car_id req' s) \<longrightarrow>
       (\<forall>ent cs. cache s ''cars'' = Some ent \<and> data ent = DCars cs \<longrightarrow>
          (\<forall>a\<in>set cs. heap s' a = heap s a)) \<and>
       (\<forall>ent. cache s' ''cars'' = Some ent \<longrightarrow>
          (\<exists>cs. data ent = DCars cs \<and>
             (\<forall>a\<in>set cs. \<exists>d f. heap s' a = Some d \<and> is_car d \<and>
                map_of d ''photos_folder_id'' = Some (PStr f) \<and>
                map_of d ''cover_image'' = None \<and> map_of d ''photos'' = None)))) \<and>
    (cache_hit (cache s) (clock e (ticks s)) ''profile'' CACHE_TTL_META \<longrightarrow>
       (\<exists>ent p. cache s ''profile'' = Some ent \<and> data ent = DProfile p \<and>
          api_profile e s = (Inr (DProfile p), s\<lparr>ticks := Suc (ticks s)\<rparr>))) \<and>
    (\<not> cache_hit (cache s) (clock e (ticks s)) ''profile'' CACHE_TTL_META \<longrightarrow>
       (\<forall>m. sheet_values e ''profile'' = Inl m \<longrightarrow> fst (api_profile e s) = Inl (Upstream m)) \<and>
       (\<forall>hs r rest. sheet_values e ''profile'' = Inr (Some (hs # r # rest)) \<longrightarrow>
          (\<exists>h now p.
             p = AList.update ''hero_image'' h (map (\<lambda>(k, v). (k, PStr v)) (row_item hs r)) \<and>
             fst (api_profile e s) = Inr (DProfile p) \<and>
             cache (snd (api_profile e s)) ''profile'' = Some \<lparr>data = DProfile p, ts = now\<rparr> \<and>
             dom (map_of p) = set hs \<union> {''hero_image''} \<and>
             (map_of p ''photos_folder_id'' \<noteq> None) = (''photos_folder_id'' \<in> set hs))) \<and>
       (sheet_values e ''profile'' = Inr None \<or> sheet_values e ''profile'' = Inr (Some []) \<or>
        (\<exists>hs. sheet_values e ''profile'' = Inr (Some [hs])) \<longrightarrow>
          (\<exists>h now.
             fst (api_profile e s) = Inr (DProfile [(''hero_image'', h)]) \<and>
             cache (snd (api_profile e s)) ''profile''
               = Some \<lparr>data = DProfile [(''hero_image'', h)], ts = now\<rparr>)))"
proof -
  have 1: "\<forall>cars s'. api_cars e req s = (Inr cars, s') \<longrightarrow>
       (\<forall>a\<in>set cars. \<exists>d. heap s' a = Some d \<and> map_of d ''photos_folder_id'' = None)"
    using api_cars_body [OF assms] by blast
  have 2: "\<forall>car s'. api_car_detail e car_id req' s = (Inr car, s') \<longrightarrow>
       (\<exists>d. heap s' car = Some d \<and> map_of d ''photos_folder_id'' = None)"
    using api_car_detail_body by blast
  have 3: "\<forall>s'. s' = snd (api_cars e req s) \<or> s' = snd (api_car_detail e car_id req' s) \<longrightarrow>
       (\<forall>ent cs. cache s ''cars'' = Some ent \<and> data ent = DCars cs \<longrightarrow>
          (\<forall>a\<in>set cs. heap s' a = heap s a)) \<and>
       (\<forall>ent. cache s' ''cars'' = Some ent \<longrightarrow>
          (\<exists>cs. data ent = DCars cs \<and>
             (\<forall>a\<in>set cs. \<exists>d f. heap s' a = Some d \<and> is_car d \<and>
                map_of d ''photos_folder_id'' = Some (PStr f) \<and>
                map_of d ''cover_image'' = None \<and> map_of d ''photos'' = None)))"
  proof (intro conjI allI impI)
    fix s' ent cs
    assume s': "s' = snd (api_cars e req s) \<or> s' = snd (api_car_detail e car_id req' s)"
      and c: "cache s ''cars'' = Some ent \<and> data ent = DCars cs"
    from s' have "extends s s'"
    proof
      assume "s' = snd (api_cars e req s)"
      then show ?thesis by (simp only: api_cars_frame)
    next
      assume "s' = snd (api_car_detail e car_id req' s)"
      then show ?thesis by (simp only: api_car_detail_frame)
    qed
    from cached_before_unchanged [OF reachable_inv [OF assms] this] c
    show "\<forall>a\<in>set cs. heap s' a = heap s a" by blast
  next
    fix s' ent
    assume s': "s' = snd (api_cars e req s) \<or> s' = snd (api_car_detail e car_id req' s)"
      and c: "cache s' ''cars'' = Some ent"
    from s' have "inv s'"
    proof
      assume "s' = snd (api_cars e req s)"
      then show ?thesis by (simp only: inv_api_cars [OF reachable_inv [OF assms]])
    next
      assume "s' = snd (api_car_detail e car_id req' s)"
      then show ?thesis by (simp only: inv_api_car_detail [OF reachable_inv [OF assms]])
    qed
    from cached_after_shape [OF this c]
    show "\<exists>cs. data ent = DCars cs \<and>
               (\<forall>a\<in>set cs. \<exists>d f. heap s' a = Some d \<and> is_car d \<and>
                  map_of d ''photos_folder_id'' = Some (PStr f) \<and>
                  map_of d ''cover_image'' = None \<and> map_of d ''photos'' = None)" .
  qed
  have 4: "cache_hit (cache s) (clock e (ticks s)) ''profile'' CACHE_TTL_META \<longrightarrow>
       (\<exists>ent p. cache s ''profile'' = Some ent \<and> data ent = DProfile p \<and>
          api_profile e s = (Inr (DProfile p), s\<lparr>ticks := Suc (ticks s)\<rparr>))"
    using api_profile_hit [OF reachable_inv [OF assms]] by (rule impI)
  have 5: "\<not> cache_hit (cache s) (clock e (ticks s)) ''profile'' CACHE_TTL_META \<longrightarrow>
       (\<forall>m. sheet_values e ''profile'' = Inl m \<longrightarrow> fst (api_profile e s) = Inl (Upstream m)) \<and>
       (\<forall>hs r rest. sheet_values e ''profile'' = Inr (Some (hs # r # rest)) \<longrightarrow>
          (\<exists>h now p.
             p = AList.update ''hero_image'' h (map (\<lambda>(k, v). (k, PStr v)) (row_item hs r)) \<and>
             fst (api_profile e s) = Inr (DProfile p) \<and>
             cache (snd (api_profile e s)) ''profile'' = Some \<lparr>data = DProfile p, ts = now\<rparr> \<and>
             dom (map_of p) = set hs \<union> {''hero_image''} \<and>
             (map_of p ''photos_folder_id'' \<noteq> None) = (''photos_folder_id'' \<in> set hs))) \<and>
       (sheet_values e ''profile'' = Inr None \<or> sheet_values e ''profile'' = Inr (Some []) \<or>
        (\<exists>hs. sheet_values e ''profile'' = Inr (Some [hs])) \<longrightarrow>
          (\<exists>h now.
             fst (api_profile e s) = Inr (DProfile [(''hero_image'', h)]) \<and>
             cache (snd (api_profile e s)) ''profile''
               = Some \<lparr>data = DProfile [(''hero_image'', h)], ts = now\<rparr>))"
    using api_profile_miss by (rule impI)
  show ?thesis
    by (rule conjI [OF 1 conjI [OF 2 conjI [OF 3 conjI [OF 4 5]]]])
qed

theorem responses_and_cached_cars_counterexample:
  "fst (api_profile env_shop init_state) =
     Inr (DProfile [(''name'', PStr ''Shop''), (''photos_folder_id'', PStr ''X''),
       (''hero_image'', PStr ''https://lh3.googleusercontent.com/d/p1=w1200'')]) \<and>
   map_of [(''name'', PStr ''Shop''), (''photos_folder_id'', PStr ''X''),
       (''hero_image'', PStr ''https://lh3.googleusercontent.com/d/p1=w1200'')]
     ''photos_folder_id'' = Some (PStr ''X'')"
  by (simp add: api_profile_shop_init)

lemma warm_next: "next_addr warm_state = 2"
proof -
  let ?s1 = "snd (load_cars env_shop (append_user_event env_shop req_list None init_state))"
  have h: "heap ?s1 0 = Some shop_car" by (simp add: load_after_event)
  have "api_cars env_shop req_list init_state = enrich_cars env_shop [0] ?s1"
    by (simp add: api_cars_def load_after_event)
  then show ?thesis
    unfolding warm_state_def
    by (simp add: enrich_shop_car [OF h]) (simp add: load_after_event)
qed

lemma warm_reachable: "reachable warm_state"
  unfolding warm_state_def by (rule reachable.cars [OF reachable.start])

lemma warm_cache: "cache warm_state ''cars'' = Some \<lparr>data = DCars [0], ts = 100\<rparr>"
  by (simp add: warm_state_def api_cars_shop_init)

lemma warm_heap: "heap warm_state 0 = Some shop_car"
  by (simp add: warm_state_def api_cars_shop_init)

lemma load_cars_shop_warm:
  "cache s ''cars'' = Some \<lparr>data = DCars [0], ts = 100\<rparr> \<Longrightarrow>
   load_cars env_shop s = (Inr (DCars [0]), s\<lparr>ticks := Suc (ticks s)\<rparr>)"
  by (simp add: load_cars_def time_time_def get_cached_def clock_shop CACHE_TTL_CARS_def)

lemma api_cars_warm:
  "fst (api_cars env_shop req warm_state) = Inr [2] \<and>
   heap (snd (api_cars env_shop req warm_state)) 0 = Some shop_car"
proof -
  define s0 where "s0 = append_user_event env_shop req None warm_state"
  define s1 where "s1 = s0\<lparr>ticks := Suc (ticks s0)\<rparr>"
  have c: "cache s0 ''cars'' = Some \<lparr>data = DCars [0], ts = 100\<rparr>"
    by (simp add: s0_def append_user_event_fields warm_cache)
  have h: "heap s1 0 = Some shop_car"
    by (simp add: s1_def s0_def append_user_event_fields warm_heap)
  have n: "next_addr s1 = 2"
    by (simp add: s1_def s0_def append_user_event_fields warm_next)
  have "api_cars env_shop req warm_state = enrich_cars env_shop [0] s1"
    by (simp add: api_cars_def s0_def [symmetric] load_cars_shop_warm [OF c] s1_def)
  then show ?thesis
    by (simp add: enrich_shop_car [OF h] n h)
qed

lemma api_detail_warm:
  "fst (api_car_detail env_shop ''c1'' req warm_state) = Inr 2 \<and>
   heap (snd (api_car_detail env_shop ''c1'' req warm_state)) 0 = Some shop_car"
proof -
  define s0 where "s0 = append_user_event env_shop req (Some ''c1'') warm_state"
  define s1 where "s1 = s0\<lparr>ticks := Suc (ticks s0)\<rparr>"
  have c: "cache s0 ''cars'' = Some \<lparr>data = DCars [0], ts = 100\<rparr>"
    by (simp add: s0_def append_user_event_fields warm_cache)
  have h: "heap s1 0 = Some shop_car"
    by (simp add: s1_def s0_def append_user_event_fields warm_heap)
  have n: "next_addr s1 = 2"
    by (simp add: s1_def s0_def append_user_event_fields warm_next)
  have ne: "shop_car \<noteq> []"
    by (simp add: shop_car_def car_dict_nonempty)
  have f: "find_car (heap s1) ''c1'' [0] = Inr (Some 0)"
    using h by (simp add: shop_car_id)
  have "api_car_detail env_shop ''c1'' req warm_state = detail_of env_shop (Some 0) s1"
    by (simp add: api_car_detail_def s0_def [symmetric] load_cars_shop_warm [OF c]
        s1_def [symmetric] f del: find_car.simps)
  then show ?thesis
    using h n
    by (simp add: detail_of_car [OF h ne] shop_car_folder load_photos_shop alloc_def)
qed

theorem responses_and_cached_cars_witness:
  "reachable warm_state \<and>
   cache warm_state ''cars'' = Some \<lparr>data = DCars [0], ts = 100\<rparr> \<and>
   fst (api_cars env_shop req_list warm_state) = Inr [2] \<and>
   fst (api_car_detail env_shop ''c1'' req_c1 warm_state) = Inr 2 \<and>
   (\<exists>d. heap (snd (api_cars env_shop req_list warm_state)) 2 = Some d \<and>
      map_of d ''photos_folder_id'' = None) \<and>
   (\<exists>d. heap (snd (api_car_detail env_shop ''c1'' req_c1 warm_state)) 2 = Some d \<and>
      map_of d ''photos_folder_id'' = None) \<and>
   heap (snd (api_cars env_shop req_list warm_state)) 0 = heap warm_state 0 \<and>
   heap (snd (api_car_detail env_shop ''c1'' req_c1 warm_state)) 0 = heap warm_state 0 \<and>
   heap warm_state 0 = Some shop_car \<and>
   map_of shop_car ''photos_folder_id'' = Some (PStr ''F1'') \<and>
   \<not> cache_hit (cache warm_state) (clock env_shop (ticks warm_state)) ''profile'' CACHE_TTL_META \<and>
   sheet_values env_shop ''profile''
     = Inr (Some [[''name'', ''photos_folder_id''], [''Shop'', ''X'']]) \<and>
   (\<exists>p. fst (api_profile env_shop warm_state) = Inr (DProfile p) \<and>
      map_of p ''photos_folder_id'' \<noteq> None) \<and>
   reachable init_state \<and>
   \<not> cache_hit (cache init_state) (clock env_header (ticks init_state)) ''profile'' CACHE_TTL_META \<and>
   sheet_values env_header ''profile'' = Inr (Some [[''name'', ''photos_folder_id'']]) \<and>
   (\<exists>h. fst (api_profile env_header init_state) = Inr (DProfile [(''hero_image'', h)])) \<and>
   reachable profiled_state \<and>
   cache_hit (cache profiled_state) (clock env_shop (ticks profiled_state)) ''profile''
     CACHE_TTL_META \<and>
   fst (api_profile env_shop profiled_state) = Inr (DProfile [(''hero_image'', PNone)])"
proof -
  note T = responses_and_cached_cars [OF warm_reachable, of env_shop req_list "''c1''" req_c1]
  have l: "api_cars env_shop req_list warm_state
      = (Inr [2], snd (api_cars env_shop req_list warm_state))"
    by (simp add: prod_eq_iff api_cars_warm)
  have d: "api_car_detail env_shop ''c1'' req_c1 warm_state
      = (Inr 2, snd (api_car_detail env_shop ''c1'' req_c1 warm_state))"
    by (simp add: prod_eq_iff api_detail_warm)
  from T [THEN conjunct1, rule_format, OF l, of 2]
  have 1: "\<exists>d. heap (snd (api_cars env_shop req_list warm_state)) 2 = Some d \<and>
      map_of d ''photos_folder_id'' = None"
    by simp
  from T [THEN conjunct2, THEN conjunct1, rule_format, OF d]
  have 2: "\<exists>d. heap (snd (api_car_detail env_shop ''c1'' req_c1 warm_state)) 2 = Some d \<and>
      map_of d ''photos_folder_id'' = None" .
  note F = T [THEN conjunct2, THEN conjunct2, THEN conjunct1, rule_format]
  have w: "cache warm_state ''cars'' = Some \<lparr>data = DCars [0], ts = 100\<rparr> \<and>
      data \<lparr>data = DCars [0], ts = 100\<rparr> = DCars [0]"
    by (simp add: warm_cache)
  from F [of "snd (api_cars env_shop req_list warm_state)", OF disjI1 [OF refl],
      THEN conjunct1, rule_format, OF w, of 0]
  have 3: "heap (snd (api_cars env_shop req_list warm_state)) 0 = heap warm_state 0"
    by simp
  from F [of "snd (api_car_detail env_shop ''c1'' req_c1 warm_state)", OF disjI2 [OF refl],
      THEN conjunct1, rule_format, OF w, of 0]
  have 4: "heap (snd (api_car_detail env_shop ''c1'' req_c1 warm_state)) 0 = heap warm_state 0"
    by simp
  note M = T [THEN conjunct2, THEN conjunct2, THEN conjunct2, THEN conjunct2, THEN mp,
      OF warm_no_profile]
  from M [THEN conjunct2, THEN conjunct1, rule_format, OF sheet_profile_shop]
  have 5: "\<exists>p. fst (api_profile env_shop warm_state) = Inr (DProfile p) \<and>
      map_of p ''photos_folder_id'' \<noteq> None"
    by auto
  have 6: "map_of shop_car ''photos_folder_id'' = Some (PStr ''F1'')"
    using shop_car_folder
    by (simp add: shop_car_def car_dict_folder get_or_def shop_row_def py_strip_def py_isspace_def)
  note H = responses_and_cached_cars [OF reachable.start, of env_header req_list "''c1''" req_c1,
      THEN conjunct2, THEN conjunct2, THEN conjunct2, THEN conjunct2, THEN mp,
      OF init_no_profile]
  have "\<exists>hs. sheet_values env_header ''profile'' = Inr (Some [hs])"
    by (simp add: sheet_profile_header)
  from H [THEN conjunct2, THEN conjunct2, THEN mp, OF disjI2 [OF disjI2 [OF this]]]
  have 7: "\<exists>h. fst (api_profile env_header init_state) = Inr (DProfile [(''hero_image'', h)])"
    by blast
  from responses_and_cached_cars [OF profiled_reachable, of env_shop req_list "''c1''" req_c1,
      THEN conjunct2, THEN conjunct2, THEN conjunct2, THEN conjunct1, THEN mp, OF profiled_hit]
  have 8: "fst (api_profile env_shop profiled_state) = Inr (DProfile [(''hero_image'', PNone)])"
    by (auto simp: profiled_cache)
  from 1 2 3 4 5 6 7 8 show ?thesis
    by (simp add: warm_reachable warm_cache warm_heap api_cars_warm api_detail_warm
        sheet_profile_shop warm_no_profile reachable.start init_no_profile
        sheet_profile_header profiled_reachable profiled_hit)
qed

end
